theory Spec2Isabelle
  imports Main "HOL-Library.Sublist"
begin

section \<open>The build manifest (setup.py)\<close>

subsection \<open>Extension modules\<close>

text \<open>
  An \<^verbatim>\<open>Extension(name, sources, include_dirs=...)\<close> of distutils. The manifest
  only ever passes these three arguments; an omitted \<^verbatim>\<open>include_dirs\<close> is the empty
  list.
\<close>

record Extension =
  name :: string
  sources :: "string list"
  include_dirs :: "string list"

definition mk_Extension :: "string \<Rightarrow> string list \<Rightarrow> string list \<Rightarrow> Extension" where
  "mk_Extension n s i = \<lparr>name = n, sources = s, include_dirs = i\<rparr>"

definition getMainExtensionModules :: "Extension list" where
  "getMainExtensionModules = [
     mk_Extension ''rmgpy.molecule.atomtype'' [''rmgpy/molecule/atomtype.py''] [''.''],
     mk_Extension ''rmgpy.molecule.element'' [''rmgpy/molecule/element.py''] [''.''],
     mk_Extension ''rmgpy.molecule.graph'' [''rmgpy/molecule/graph.py''] [''.''],
     mk_Extension ''rmgpy.molecule.group'' [''rmgpy/molecule/group.py''] [''.''],
     mk_Extension ''rmgpy.molecule.molecule'' [''rmgpy/molecule/molecule.py''] [''.''],
     mk_Extension ''rmgpy.molecule.symmetry'' [''rmgpy/molecule/symmetry.py''] [''.''],
     mk_Extension ''rmgpy.statmech.mode'' [''rmgpy/statmech/mode.pyx''] [],
     mk_Extension ''rmgpy.statmech.schrodinger'' [''rmgpy/statmech/schrodinger.pyx''] [],
     mk_Extension ''rmgpy.constants'' [''rmgpy/constants.py''] [''.''],
     mk_Extension ''rmgpy.kinetics'' [''rmgpy/kinetics.py''] [''.''],
     mk_Extension ''rmgpy.quantity'' [''rmgpy/quantity.py''] [''.''],
     mk_Extension ''rmgpy.reaction'' [''rmgpy/reaction.py''] [''.''],
     mk_Extension ''rmgpy.species'' [''rmgpy/species.py''] [''.''],
     mk_Extension ''rmgpy._statmech'' [''rmgpy/_statmech.pyx''] [''.''],
     mk_Extension ''rmgpy.statmech'' [''rmgpy/statmech.py''] [''.''],
     mk_Extension ''rmgpy.thermo'' [''rmgpy/thermo.py''] [''.'']
   ]"

definition getMeasureExtensionModules :: "Extension list" where
  "getMeasureExtensionModules = [
     mk_Extension ''rmgpy.measure._network'' [''rmgpy/measure/_network.pyx''] [''.''],
     mk_Extension ''rmgpy.measure.collision'' [''rmgpy/measure/collision.pyx''] [''.''],
     mk_Extension ''rmgpy.measure.reaction'' [''rmgpy/measure/reaction.pyx''] [''.''],
     mk_Extension ''rmgpy.measure.msc'' [''rmgpy/measure/msc.pyx''] [''.''],
     mk_Extension ''rmgpy.measure.rs'' [''rmgpy/measure/rs.pyx''] [''.''],
     mk_Extension ''rmgpy.measure.cse'' [''rmgpy/measure/cse.pyx''] [''.''],
     mk_Extension ''rmgpy.measure.me'' [''rmgpy/measure/me.pyx''] [''.''],
     mk_Extension ''rmgpy.constants'' [''rmgpy/constants.py''] [''.''],
     mk_Extension ''rmgpy.quantity'' [''rmgpy/quantity.py''] [''.''],
     mk_Extension ''rmgpy._statmech'' [''rmgpy/_statmech.pyx''] [''.'']
   ]"

definition getSolverExtensionModules :: "Extension list" where
  "getSolverExtensionModules = [
     mk_Extension ''rmgpy.solver.base'' [''rmgpy/solver/base.pyx''] [''.''],
     mk_Extension ''rmgpy.solver.simple'' [''rmgpy/solver/simple.pyx''] [''.'']
   ]"

subsection \<open>Selecting the modules from the command line\<close>

datatype py_error = ValueError

text \<open>
  Python's \<^verbatim>\<open>list.remove(x)\<close>: drops the first element equal to \<open>x\<close> and raises
  \<^verbatim>\<open>ValueError\<close> when there is none.
\<close>

fun list_remove :: "'a list \<Rightarrow> 'a \<Rightarrow> py_error + 'a list" where
  "list_remove [] x = Inl ValueError"
| "list_remove (y # ys) x =
     (if y = x then Inr ys
      else (case list_remove ys x of
              Inl e \<Rightarrow> Inl e
            | Inr zs \<Rightarrow> Inr (y # zs)))"

text \<open>
  The two pieces of state the module-level code of lines 103 to 120 touches:
  \<^verbatim>\<open>sys.argv\<close> and the local list \<^verbatim>\<open>ext_modules\<close>.
\<close>

record script_state =
  argv :: "string list"
  ext_modules :: "Extension list"

definition extend_modules :: "Extension list \<Rightarrow> script_state \<Rightarrow> script_state" where
  "extend_modules ms s = s\<lparr>ext_modules := ext_modules s @ ms\<rparr>"

definition remove_arg :: "string \<Rightarrow> script_state \<Rightarrow> py_error + script_state" where
  "remove_arg k s =
     (case list_remove (argv s) k of
        Inl e \<Rightarrow> Inl e
      | Inr a \<Rightarrow> Inr (s\<lparr>argv := a\<rparr>))"

text \<open>
  The \<^verbatim>\<open>if\<close>/\<^verbatim>\<open>elif\<close> chain, started from \<^verbatim>\<open>ext_modules = []\<close> and the
  command line \<open>args\<close>.
\<close>

definition select_ext_modules :: "string list \<Rightarrow> py_error + script_state" where
  "select_ext_modules args =
     (let s = \<lparr>argv = args, ext_modules = []\<rparr> in
      if ''install'' \<in> set (argv s) then
        Inr (extend_modules getSolverExtensionModules
              (extend_modules getMeasureExtensionModules
                (extend_modules getMainExtensionModules s)))
      else if ''main'' \<in> set (argv s) then
        (case remove_arg ''main'' s of
           Inl e \<Rightarrow> Inl e
         | Inr s' \<Rightarrow> Inr (extend_modules getMainExtensionModules s'))
      else if ''measure'' \<in> set (argv s) then
        (case remove_arg ''measure'' s of
           Inl e \<Rightarrow> Inl e
         | Inr s' \<Rightarrow> Inr (extend_modules getMeasureExtensionModules s'))
      else if ''solver'' \<in> set (argv s) then
        (case remove_arg ''solver'' s of
           Inl e \<Rightarrow> Inl e
         | Inr s' \<Rightarrow> Inr (extend_modules getSolverExtensionModules s'))
      else Inr s)"

text \<open>All the extensions the manifest can declare, whatever the command line.\<close>

definition manifest :: "Extension list" where
  "manifest = getMainExtensionModules @ getMeasureExtensionModules @ getSolverExtensionModules"

definition molecule_modules :: "Extension list \<Rightarrow> string list" where
  "molecule_modules ms = filter (prefix ''rmgpy.molecule.'') (map name ms)"

section \<open>The chemical-graph core (rmgpy.molecule)\<close>

text \<open>
  The manifest declares the modules \<^verbatim>\<open>rmgpy.molecule.graph\<close>, \<^verbatim>\<open>group\<close>,
  \<^verbatim>\<open>molecule\<close> and \<^verbatim>\<open>symmetry\<close>, but their sources are not part of the excerpt.
  Every definition of this section is therefore written from the specification, and says
  from which of its sentences.
\<close>

subsection \<open>Graph core\<close>

text \<open>
  Modelled from the spec: vertex and edge identifiers, ``opaque integer identifiers''
  (section 9); the graph module is missing.
\<close>

type_synonym VertexId = nat

type_synonym EdgeId = nat

text \<open>
  Modelled from the spec: the Graph of sections 3 and 9 (module graph is missing):
  vertices and edges are stored ``in an arena owned by the Graph'', in insertion order,
  each vertex with its label set, each edge with its pair of endpoints and its label set;
  the two counters hand out fresh identifiers. Adjacency is derived from the arena.
\<close>

record ('v, 'e) Graph =
  vertex_arena :: "(VertexId \<times> 'v) list"
  edge_arena :: "(EdgeId \<times> (VertexId \<times> VertexId) \<times> 'e) list"
  next_vertex :: VertexId
  next_edge :: EdgeId

text \<open>
  Modelled from the spec: the errors of sections 4.1, 4.5 and 7 that the graph core and
  the engine signal (their modules are missing): the two construction errors of
  \<^verbatim>\<open>addEdge\<close> and \<^verbatim>\<open>InvalidInput\<close>.
\<close>

datatype graph_error = DuplicateEdge | UnknownVertex | InvalidInput

text \<open>Modelled from the spec: the graph before any \<^verbatim>\<open>addVertex\<close> (module graph is missing).\<close>

definition emptyGraph :: "('v, 'e) Graph" where
  "emptyGraph = \<lparr>vertex_arena = [], edge_arena = [], next_vertex = 0, next_edge = 0\<rparr>"

text \<open>Modelled from the spec: \<^verbatim>\<open>vertices()\<close> of section 4.3, in insertion order (missing).\<close>

definition vertices :: "('v, 'e) Graph \<Rightarrow> VertexId list" where
  "vertices g = map fst (vertex_arena g)"

text \<open>Modelled from the spec: \<^verbatim>\<open>edges()\<close> of section 4.3, in insertion order (missing).\<close>

definition edges :: "('v, 'e) Graph \<Rightarrow> EdgeId list" where
  "edges g = map fst (edge_arena g)"

text \<open>
  Modelled from the spec: \<^verbatim>\<open>labelsOf(vertex)\<close> of section 4.3 (missing); \<open>None\<close> for an
  identifier that is not a vertex of the graph.
\<close>

definition labelsOf :: "('v, 'e) Graph \<Rightarrow> VertexId \<Rightarrow> 'v option" where
  "labelsOf g v = map_of (vertex_arena g) v"

text \<open>
  Modelled from the spec: an edge is an ``unordered pair of Vertex identifiers''
  (section 3), so an arena entry joins \<open>a\<close> and \<open>b\<close> in either orientation (module graph
  is missing).
\<close>

definition joins :: "VertexId \<Rightarrow> VertexId \<Rightarrow> EdgeId \<times> (VertexId \<times> VertexId) \<times> 'e \<Rightarrow> bool" where
  "joins a b e = (case e of (i, (x, y), l) \<Rightarrow> (x = a \<and> y = b) \<or> (x = b \<and> y = a))"

text \<open>
  Modelled from the spec: \<^verbatim>\<open>labelsOf(edge)\<close> for the edge between two vertices, the
  adjacency query the engine asks (sections 4.1 and 4.5; missing); \<open>None\<close> when the two
  vertices are not adjacent.
\<close>

definition edgeBetween :: "('v, 'e) Graph \<Rightarrow> VertexId \<Rightarrow> VertexId \<Rightarrow> 'e option" where
  "edgeBetween g a b = map_option (\<lambda>(i, p, l). l) (find (joins a b) (edge_arena g))"

text \<open>Modelled from the spec: ``either endpoint is absent'' of section 4.1 (missing).\<close>

definition hasVertex :: "('v, 'e) Graph \<Rightarrow> VertexId \<Rightarrow> bool" where
  "hasVertex g v = (v \<in> set (vertices g))"

text \<open>
  Modelled from the spec: ``the unordered pair already has an edge'' of section 4.1
  (missing).
\<close>

definition hasEdge :: "('v, 'e) Graph \<Rightarrow> VertexId \<Rightarrow> VertexId \<Rightarrow> bool" where
  "hasEdge g a b = list_ex (joins a b) (edge_arena g)"

text \<open>
  Modelled from the spec: \<^verbatim>\<open>addVertex(labels) -> VertexId\<close> of section 4.1 (missing).
  The contract names no failure.
\<close>

definition addVertex :: "('v, 'e) Graph \<Rightarrow> 'v \<Rightarrow> VertexId \<times> ('v, 'e) Graph" where
  "addVertex g l =
     (next_vertex g,
      g\<lparr>vertex_arena := vertex_arena g @ [(next_vertex g, l)],
        next_vertex := Suc (next_vertex g)\<rparr>)"

text \<open>
  Modelled from the spec: \<^verbatim>\<open>addEdge(v1, v2, labels) -> EdgeId\<close> of section 4.1 (missing):
  ``fails with DuplicateEdge if the unordered pair already has an edge, fails with
  UnknownVertex if either endpoint is absent''. These are the only two failures the
  contract names, so they are the only two of the model; the endpoints are looked up
  first.
\<close>

definition addEdge ::
  "('v, 'e) Graph \<Rightarrow> VertexId \<Rightarrow> VertexId \<Rightarrow> 'e \<Rightarrow> graph_error + EdgeId \<times> ('v, 'e) Graph" where
  "addEdge g v1 v2 l =
     (if \<not> hasVertex g v1 \<or> \<not> hasVertex g v2 then Inl UnknownVertex
      else if hasEdge g v1 v2 then Inl DuplicateEdge
      else Inr (next_edge g,
                g\<lparr>edge_arena := edge_arena g @ [(next_edge g, (v1, v2), l)],
                  next_edge := Suc (next_edge g)\<rparr>))"

text \<open>
  Modelled from the spec: the Graph invariant of section 3, ``every Edge's endpoints are
  Vertices of the same Graph'', together with what makes the counters hand out fresh
  identifiers: every identifier in use lies below its counter (module graph is missing).
\<close>

definition arena_inv :: "('v, 'e) Graph \<Rightarrow> bool" where
  "arena_inv g \<longleftrightarrow>
     list_all (\<lambda>v. v < next_vertex g) (vertices g)
     \<and> list_all (\<lambda>e. e < next_edge g) (edges g)
     \<and> list_all (\<lambda>(i, (x, y), l). hasVertex g x \<and> hasVertex g y) (edge_arena g)"

text \<open>
  Modelled from the spec: the degree of a vertex, the first component of the ``cheap
  invariant'' of section 4.5, step 1 (the engine is missing).
\<close>

definition degree :: "('v, 'e) Graph \<Rightarrow> VertexId \<Rightarrow> nat" where
  "degree g v = length (filter (\<lambda>(i, (x, y), l). x = v \<or> y = v) (edge_arena g))"

text \<open>
  Modelled from the spec: the simple-graph invariant of section 3 that the engine checks
  at query time (section 4.5, \<^verbatim>\<open>InvalidInput\<close>; missing): vertex identities are
  distinct, there is no self-loop, every endpoint is a vertex, and there is at most one
  edge per unordered pair.
\<close>

definition simpleGraph :: "('v, 'e) Graph \<Rightarrow> bool" where
  "simpleGraph g \<longleftrightarrow>
     distinct (vertices g)
     \<and> list_all (\<lambda>(i, (x, y), l). x \<noteq> y \<and> hasVertex g x \<and> hasVertex g y) (edge_arena g)
     \<and> distinct (map (\<lambda>(i, (x, y), l). (min x y, max x y)) (edge_arena g))"

subsection \<open>Molecules and groups\<close>

text \<open>
  Modelled from the spec: the concrete vertex label of a Molecule, ``element symbol +
  isotope + radical-electron count + lone-pair count + charge'' (section 3; module
  molecule is missing).
\<close>

record AtomLabel =
  element :: string
  isotope :: nat
  radicals :: nat
  lone_pairs :: nat
  charge :: int

text \<open>
  Modelled from the spec: the concrete edge label, ``bond order:
  single/double/triple/aromatic'' (section 3; module molecule is missing).
\<close>

datatype BondOrder = Single | Double | Triple | Aromatic

text \<open>
  Modelled from the spec: what a Group's edge label set may hold, a bond order or the
  ``any bond'' wildcard (sections 3 and 4.4; module group is missing).
\<close>

datatype BondSpec = Order BondOrder | AnyBond

text \<open>Modelled from the spec: Molecule, ``is-a Graph, concrete labels'' (section 3; missing).\<close>

type_synonym Molecule = "(AtomLabel, BondOrder) Graph"

text \<open>
  Modelled from the spec: Group, ``is-a Graph, wildcard labels'': sets of acceptable
  atom labels and of acceptable bonds (section 3; missing).
\<close>

type_synonym Group = "(AtomLabel set, BondSpec set) Graph"

text \<open>
  Modelled from the spec: \<^verbatim>\<open>matchesLabel\<close> of section 4.4 (module group is missing):
  ``a pattern vertex matches a molecule vertex iff the molecule vertex's concrete label
  is one of the pattern vertex's acceptable labels''.
\<close>

definition matchesLabel :: "AtomLabel set \<Rightarrow> AtomLabel \<Rightarrow> bool" where
  "matchesLabel ls a = (a \<in> ls)"

text \<open>
  Modelled from the spec: the edge-label predicate of section 4.4 (module group is
  missing): membership, except that ``an any-bond wildcard on a pattern edge matches
  every concrete bond order''.
\<close>

definition matchesBond :: "BondSpec set \<Rightarrow> BondOrder \<Rightarrow> bool" where
  "matchesBond bs b = (AnyBond \<in> bs \<or> Order b \<in> bs)"

subsection \<open>Isomorphism engine\<close>

text \<open>
  Modelled from the spec: the Mapping of section 3 (the engine is missing), ``an
  injective function from pattern-vertex identity to target-vertex identity'', as the
  list of its pairs in the order the search assigned them.
\<close>

type_synonym Mapping = "(VertexId \<times> VertexId) list"

text \<open>
  Modelled from the spec: section 4.5, step 2 (the engine is missing): pattern vertices
  are taken ``most constrained first'', ``ties broken by insertion order''. Of the
  invariant only the degree is modelled; the sort is stable, so ties keep the insertion
  order. The proofs use nothing of this order but that it lists every vertex once.
\<close>

definition searchOrder :: "('v, 'e) Graph \<Rightarrow> VertexId list" where
  "searchOrder g = sort_key (\<lambda>v. - int (degree g v)) (vertices g)"

text \<open>
  Modelled from the spec: a query of the engine (section 4.5; missing): the
  ``configurable compatibility predicate'' on vertex and on edge labels, the mode
  (\<open>exact\<close> for exact isomorphism and automorphisms, otherwise subgraph isomorphism), and
  the two graphs.
\<close>

record ('pv, 'pe, 'tv, 'te) Query =
  vertexOk :: "'pv \<Rightarrow> 'tv \<Rightarrow> bool"
  edgeOk :: "'pe \<Rightarrow> 'te \<Rightarrow> bool"
  exact :: bool
  pattern :: "('pv, 'pe) Graph"
  target :: "('tv, 'te) Graph"

text \<open>
  Modelled from the spec: section 4.5, step 3 (missing): a candidate's ``label set is
  compatible'' with that of the pattern vertex.
\<close>

definition vertexFits :: "('pv, 'pe, 'tv, 'te) Query \<Rightarrow> VertexId \<Rightarrow> VertexId \<Rightarrow> bool" where
  "vertexFits q u c =
     (case labelsOf (pattern q) u of
        None \<Rightarrow> False
      | Some lu \<Rightarrow>
          (case labelsOf (target q) c of
             None \<Rightarrow> False
           | Some lc \<Rightarrow> vertexOk q lu lc))"

text \<open>
  Modelled from the spec: section 4.5, step 3 (missing): a pattern edge needs a target
  edge with a compatible label; where the pattern has no edge, the exact mode wants none
  in the target either, and the subgraph mode ignores the target.
\<close>

definition labelFits ::
  "('pv, 'pe, 'tv, 'te) Query \<Rightarrow> 'pe option \<Rightarrow> 'te option \<Rightarrow> bool" where
  "labelFits q pe te =
     (case pe of
        Some lp \<Rightarrow>
          (case te of
             Some lt \<Rightarrow> edgeOk q lp lt
           | None \<Rightarrow> False)
      | None \<Rightarrow> (if exact q then te = None else True))"

text \<open>
  Modelled from the spec: section 4.5, step 3 (missing): the adjacency constraint
  between a pair of pattern vertices \<open>u\<close>, \<open>u'\<close> and their images \<open>c\<close>, \<open>c'\<close>: ``a mapped
  neighbor's image must be adjacent in the target with a label-compatible edge; for
  exact/automorphism mode, a mapped non-neighbor's image must likewise be non-adjacent''.
\<close>

definition edgeFits ::
  "('pv, 'pe, 'tv, 'te) Query \<Rightarrow> VertexId \<Rightarrow> VertexId \<Rightarrow> VertexId \<Rightarrow> VertexId \<Rightarrow> bool" where
  "edgeFits q u u' c c' =
     labelFits q (edgeBetween (pattern q) u u') (edgeBetween (target q) c c')"

text \<open>
  Modelled from the spec: section 4.5, step 3 (missing): the test a target vertex \<open>c\<close>
  passes to become the image of \<open>u\<close> under the partial mapping \<open>m\<close>: it is not an image
  yet (injectivity), its label is compatible, and it keeps every constraint with the
  vertices already mapped.
\<close>

definition admissible ::
  "('pv, 'pe, 'tv, 'te) Query \<Rightarrow> Mapping \<Rightarrow> VertexId \<Rightarrow> VertexId \<Rightarrow> bool" where
  "admissible q m u c =
     (c \<notin> set (map snd m) \<and> vertexFits q u c
      \<and> list_all (\<lambda>(u', c'). edgeFits q u u' c c') m)"

text \<open>
  Modelled from the spec: section 4.5, step 3 (missing): ``enumerate target-side
  candidates'', in the insertion order of the target's vertices.
\<close>

definition candidates ::
  "('pv, 'pe, 'tv, 'te) Query \<Rightarrow> Mapping \<Rightarrow> VertexId \<Rightarrow> VertexId list" where
  "candidates q m u = filter (admissible q m u) (vertices (target q))"

text \<open>
  Modelled from the spec: the backtracking search of section 4.5, steps 3 and 4, for
  exact and subgraph queries (missing): ``pick the next unmapped vertex'', try its
  candidates in turn, ``recurse; backtrack on dead ends'' and ``stop at first complete
  successful mapping''. \<open>None\<close> is the spec's ``no mapping''.
\<close>

fun search :: "('pv, 'pe, 'tv, 'te) Query \<Rightarrow> VertexId list \<Rightarrow> Mapping \<Rightarrow> Mapping option"
  and try_candidates ::
    "('pv, 'pe, 'tv, 'te) Query \<Rightarrow> VertexId \<Rightarrow> VertexId list \<Rightarrow> VertexId list \<Rightarrow> Mapping
      \<Rightarrow> Mapping option"
where
  "search q [] m = Some m"
| "search q (u # us) m = try_candidates q u (candidates q m u) us m"
| "try_candidates q u [] us m = None"
| "try_candidates q u (c # cs) us m =
     (case search q us (m @ [(u, c)]) of
        Some r \<Rightarrow> Some r
      | None \<Rightarrow> try_candidates q u cs us m)"

text \<open>
  Modelled from the spec: the same search for automorphism enumeration (section 4.5,
  step 4; missing): ``continue until all branches are exhausted and return the full
  set'', here as the list of the mappings in the order they are found.
\<close>

fun search_all :: "('pv, 'pe, 'tv, 'te) Query \<Rightarrow> VertexId list \<Rightarrow> Mapping \<Rightarrow> Mapping list"
  and collect_candidates ::
    "('pv, 'pe, 'tv, 'te) Query \<Rightarrow> VertexId \<Rightarrow> VertexId list \<Rightarrow> VertexId list \<Rightarrow> Mapping
      \<Rightarrow> Mapping list"
where
  "search_all q [] m = [m]"
| "search_all q (u # us) m = collect_candidates q u (candidates q m u) us m"
| "collect_candidates q u [] us m = []"
| "collect_candidates q u (c # cs) us m =
     search_all q us (m @ [(u, c)]) @ collect_candidates q u cs us m"

text \<open>
  Modelled from the spec: the three outcomes of a bounded query (sections 5 and 7;
  missing): a mapping, \<^verbatim>\<open>NoMatch\<close>, or \<^verbatim>\<open>SearchAborted\<close>.
\<close>

datatype 'a Outcome = Match 'a | NoMatch | SearchAborted

text \<open>
  Modelled from the spec: the ``cancellable/bounded variant'' of section 5 (missing),
  with ``a step budget ... checked between backtracking steps'': the search above,
  threading the remaining budget. Visiting a node of the search tree costs one step; with
  no step left the search is aborted, and an abort ends the whole search.
\<close>

fun bounded_search ::
    "('pv, 'pe, 'tv, 'te) Query \<Rightarrow> VertexId list \<Rightarrow> Mapping \<Rightarrow> nat \<Rightarrow> Mapping Outcome \<times> nat"
  and bounded_try ::
    "('pv, 'pe, 'tv, 'te) Query \<Rightarrow> VertexId \<Rightarrow> VertexId list \<Rightarrow> VertexId list \<Rightarrow> Mapping
      \<Rightarrow> nat \<Rightarrow> Mapping Outcome \<times> nat"
where
  "bounded_search q us m 0 = (SearchAborted, 0)"
| "bounded_search q [] m (Suc b) = (Match m, b)"
| "bounded_search q (u # us) m (Suc b) = bounded_try q u (candidates q m u) us m b"
| "bounded_try q u [] us m b = (NoMatch, b)"
| "bounded_try q u (c # cs) us m b =
     (case bounded_search q us (m @ [(u, c)]) b of
        (NoMatch, b') \<Rightarrow> bounded_try q u cs us m b'
      | (r, b') \<Rightarrow> (r, b'))"

text \<open>
  Modelled from the spec: the number of steps the unbounded search of a query takes, the
  quantity a ``caller-supplied search bound'' (section 7) is compared with; it counts
  the nodes \<open>search\<close> visits before it returns (the engine is missing).
\<close>

fun search_steps :: "('pv, 'pe, 'tv, 'te) Query \<Rightarrow> VertexId list \<Rightarrow> Mapping \<Rightarrow> nat"
  and try_steps ::
    "('pv, 'pe, 'tv, 'te) Query \<Rightarrow> VertexId \<Rightarrow> VertexId list \<Rightarrow> VertexId list \<Rightarrow> Mapping \<Rightarrow> nat"
where
  "search_steps q [] m = 1"
| "search_steps q (u # us) m = Suc (try_steps q u (candidates q m u) us m)"
| "try_steps q u [] us m = 0"
| "try_steps q u (c # cs) us m =
     search_steps q us (m @ [(u, c)])
     + (case search q us (m @ [(u, c)]) of
          Some r \<Rightarrow> 0
        | None \<Rightarrow> try_steps q u cs us m)"

text \<open>
  Modelled from the spec: the exact mode of section 4.5 (missing): ``predicate requires
  identical label sets on corresponding vertices/edges''.
\<close>

definition exactQuery ::
  "('v, 'e) Graph \<Rightarrow> ('v, 'e) Graph \<Rightarrow> ('v, 'e, 'v, 'e) Query" where
  "exactQuery a b =
     \<lparr>vertexOk = (=), edgeOk = (=), exact = True, pattern = a, target = b\<rparr>"

text \<open>
  Modelled from the spec: the subgraph mode of section 4.5 (missing): ``predicate uses
  the wildcard membership test of section 4.4''.
\<close>

definition subgraphQuery ::
  "Group \<Rightarrow> Molecule \<Rightarrow> (AtomLabel set, BondSpec set, AtomLabel, BondOrder) Query" where
  "subgraphQuery p t =
     \<lparr>vertexOk = matchesLabel, edgeOk = matchesBond, exact = False, pattern = p, target = t\<rparr>"

text \<open>
  Modelled from the spec: the entry check of section 4.5 (missing): ``signals
  InvalidInput only if either graph violates the simple-graph invariant''.
\<close>

definition invalidQuery :: "('pv, 'pe, 'tv, 'te) Query \<Rightarrow> bool" where
  "invalidQuery q = (\<not> simpleGraph (pattern q) \<or> \<not> simpleGraph (target q))"

text \<open>
  Modelled from the spec: in the exact mode ``the mapping must be a bijection on
  vertices'' (section 4.5; missing), so graphs of different sizes do not match and need
  no search.
\<close>

definition sizeMismatch :: "('pv, 'pe, 'tv, 'te) Query \<Rightarrow> bool" where
  "sizeMismatch q =
     (exact q \<and> length (vertices (pattern q)) \<noteq> length (vertices (target q)))"

text \<open>
  Modelled from the spec: an exact or subgraph query of section 4.5 (missing): the entry
  check, then the search over the pattern's vertices in search order, from the empty
  mapping.
\<close>

definition matchQuery :: "('pv, 'pe, 'tv, 'te) Query \<Rightarrow> graph_error + Mapping option" where
  "matchQuery q =
     (if invalidQuery q then Inl InvalidInput
      else if sizeMismatch q then Inr None
      else Inr (search q (searchOrder (pattern q)) []))"

text \<open>
  Modelled from the spec: the bounded variant of a query (section 5; missing), with the
  caller's step budget.
\<close>

definition boundedMatchQuery ::
  "('pv, 'pe, 'tv, 'te) Query \<Rightarrow> nat \<Rightarrow> graph_error + Mapping Outcome" where
  "boundedMatchQuery q budget =
     (if invalidQuery q then Inl InvalidInput
      else if sizeMismatch q then Inr NoMatch
      else Inr (fst (bounded_search q (searchOrder (pattern q)) [] budget)))"

text \<open>
  Modelled from the spec: the steps the unbounded query takes (section 7's ``search
  bound'' is compared with it; missing).
\<close>

definition matchSteps :: "('pv, 'pe, 'tv, 'te) Query \<Rightarrow> nat" where
  "matchSteps q =
     (if sizeMismatch q then 0 else search_steps q (searchOrder (pattern q)) [])"

text \<open>
  Modelled from the spec: the subgraph-isomorphism query of section 4.5, ``pattern
  embeds in target'' (missing).
\<close>

definition findSubgraphIsomorphism :: "Group \<Rightarrow> Molecule \<Rightarrow> graph_error + Mapping option" where
  "findSubgraphIsomorphism p t = matchQuery (subgraphQuery p t)"

text \<open>
  Modelled from the spec: automorphism enumeration of section 4.5 (missing): ``same as
  exact isomorphism with source = target; all accepted mappings are collected rather
  than stopping at the first''.
\<close>

definition automorphisms :: "('v, 'e) Graph \<Rightarrow> graph_error + Mapping list" where
  "automorphisms a =
     (if \<not> simpleGraph a then Inl InvalidInput
      else Inr (search_all (exactQuery a a) (searchOrder a) []))"

text \<open>
  Modelled from the spec: \<^verbatim>\<open>symmetryNumber(molecule)\<close> of section 4.6 (module symmetry
  is missing), ``computed as |AutomorphismSet(molecule)|''; this is the global symmetry
  number, with no anchor pinned.
\<close>

definition symmetryNumber :: "('v, 'e) Graph \<Rightarrow> graph_error + nat" where
  "symmetryNumber a =
     (case automorphisms a of
        Inl e \<Rightarrow> Inl e
      | Inr ms \<Rightarrow> Inr (length ms))"

subsection \<open>Mappings as functions\<close>

text \<open>
  Modelled from the spec: the identity mapping of section 8, ``the identity mapping is
  among the reported automorphisms'' (missing), on the vertices \<open>us\<close>.
\<close>

definition identityMapping :: "VertexId list \<Rightarrow> Mapping" where
  "identityMapping us = map (\<lambda>u. (u, u)) us"

text \<open>
  Modelled from the spec: a Mapping read as the function it is (section 3; missing);
  outside its domain it leaves a vertex where it is.
\<close>

definition applyMapping :: "Mapping \<Rightarrow> VertexId \<Rightarrow> VertexId" where
  "applyMapping m u = (case map_of m u of Some c \<Rightarrow> c | None \<Rightarrow> u)"

text \<open>
  Modelled from the spec: the composition of section 8's ``closed under composition''
  (missing): first \<open>a\<close>, then \<open>b\<close>.
\<close>

definition composeMapping :: "Mapping \<Rightarrow> Mapping \<Rightarrow> Mapping" where
  "composeMapping a b = map (\<lambda>(u, c). (u, applyMapping b c)) a"

text \<open>
  Modelled from the spec: the inverse of section 8's ``closed under ... inversion''
  (missing): every vertex of the domain is sent to the vertex \<open>a\<close> sends to it.
\<close>

definition inverseMapping :: "Mapping \<Rightarrow> Mapping" where
  "inverseMapping a = map (\<lambda>(u, c). (u, applyMapping (map (\<lambda>(x, y). (y, x)) a) u)) a"

subsection \<open>What a mapping must satisfy\<close>

text \<open>
  Modelled from the spec: what section 4.5 asks of a mapping, said without the search
  (missing): it is a function, ``injective on pattern vertices'', every image is a
  vertex of the target with a compatible label, and every pair of mapped vertices keeps
  the adjacency constraint of the mode.
\<close>

definition embeds :: "('pv, 'pe, 'tv, 'te) Query \<Rightarrow> Mapping \<Rightarrow> bool" where
  "embeds q m \<longleftrightarrow>
     distinct (map fst m) \<and> distinct (map snd m)
     \<and> list_all (\<lambda>(u, c). hasVertex (target q) c \<and> vertexFits q u c) m
     \<and> list_all (\<lambda>(u, c). list_all (\<lambda>(u', c'). u = u' \<or> edgeFits q u u' c c') m) m"

text \<open>
  Modelled from the spec: a mapping that answers the query (section 4.5; missing): it
  maps exactly the pattern's vertices, satisfies \<open>embeds\<close>, and in the exact mode the two
  graphs have the same number of vertices, so that it is a bijection.
\<close>

definition answers :: "('pv, 'pe, 'tv, 'te) Query \<Rightarrow> Mapping \<Rightarrow> bool" where
  "answers q m \<longleftrightarrow>
     set (map fst m) = set (vertices (pattern q)) \<and> embeds q m \<and> \<not> sizeMismatch q"

text \<open>
  Modelled from the spec: the automorphisms of section 3's AutomorphismSet, as functions
  (missing): ``Mappings from a Molecule's vertex set to itself that preserve all labels
  and adjacency''.
\<close>

definition is_automorphism :: "('v, 'e) Graph \<Rightarrow> (VertexId \<Rightarrow> VertexId) \<Rightarrow> bool" where
  "is_automorphism g f \<longleftrightarrow>
     bij_betw f (set (vertices g)) (set (vertices g))
     \<and> (\<forall>u \<in> set (vertices g). labelsOf g (f u) = labelsOf g u)
     \<and> (\<forall>u \<in> set (vertices g). \<forall>u' \<in> set (vertices g).
           u \<noteq> u' \<longrightarrow> edgeBetween g (f u) (f u') = edgeBetween g u u')"

text \<open>
  Modelled from the spec: the hypothesis of section 8's wildcard widening (missing):
  \<open>h\<close> is a one-to-one correspondence of the vertices of \<open>g1\<close> with those of \<open>g2\<close>, under
  which two vertices are adjacent in \<open>g1\<close> exactly when their partners are in \<open>g2\<close>, and
  every label set of \<open>g2\<close> is a superset of the corresponding one of \<open>g1\<close>.
\<close>

definition widens :: "Group \<Rightarrow> Group \<Rightarrow> (VertexId \<Rightarrow> VertexId) \<Rightarrow> bool" where
  "widens g1 g2 h \<longleftrightarrow>
     distinct (map h (vertices g1))
     \<and> set (map h (vertices g1)) = set (vertices g2)
     \<and> list_all (\<lambda>u.
          (case labelsOf g1 u of
             None \<Rightarrow> False
           | Some a \<Rightarrow>
               (case labelsOf g2 (h u) of
                  None \<Rightarrow> False
                | Some b \<Rightarrow> a \<subseteq> b))) (vertices g1)
     \<and> list_all (\<lambda>u. list_all (\<lambda>u'.
          u = u' \<or>
          (case edgeBetween g1 u u' of
             None \<Rightarrow> edgeBetween g2 (h u) (h u') = None
           | Some a \<Rightarrow>
               (case edgeBetween g2 (h u) (h u') of
                  None \<Rightarrow> False
                | Some b \<Rightarrow> a \<subseteq> b))) (vertices g1)) (vertices g1)"

text \<open>Modelled from the spec: no mapping, or the mapping found, as an outcome (missing).\<close>

definition toOutcome :: "'a option \<Rightarrow> 'a Outcome" where
  "toOutcome r = (case r of Some m \<Rightarrow> Match m | None \<Rightarrow> NoMatch)"

text \<open>Modelled from the spec: the first mapping of an enumeration, if any (missing).\<close>

definition first_of :: "'a list \<Rightarrow> 'a option" where
  "first_of xs = (case xs of [] \<Rightarrow> None | x # _ \<Rightarrow> Some x)"

subsection \<open>The molecules of the concrete scenarios\<close>

text \<open>
  Modelled from the spec: the ``carbon-like'' vertex label of section 8's scenarios
  (missing).
\<close>

definition carbon :: AtomLabel where
  "carbon = \<lparr>element = ''C'', isotope = 12, radicals = 0, lone_pairs = 0, charge = 0\<rparr>"

text \<open>
  Modelled from the spec: scenario 1 of section 8 (missing): ``a two-vertex graph with a
  single double bond between two carbon-like vertices of identical label''.
\<close>

definition ethene :: Molecule where
  "ethene =
     \<lparr>vertex_arena = [(0, carbon), (1, carbon)],
      edge_arena = [(0, (0, 1), Double)],
      next_vertex = 2, next_edge = 1\<rparr>"

text \<open>
  Modelled from the spec: the ring of scenario 2 of section 8 (missing): six vertices of
  one label \<open>a\<close> in a cycle, the six edges labelled \<open>x\<close>, \<open>y\<close>, \<open>x\<close>, \<open>y\<close>, \<open>x\<close>, \<open>y\<close> around
  it.
\<close>

definition ring6 :: "AtomLabel \<Rightarrow> BondOrder \<Rightarrow> BondOrder \<Rightarrow> Molecule" where
  "ring6 a x y =
     \<lparr>vertex_arena = [(0, a), (1, a), (2, a), (3, a), (4, a), (5, a)],
      edge_arena = [(0, (0, 1), x), (1, (1, 2), y), (2, (2, 3), x), (3, (3, 4), y),
                    (4, (4, 5), x), (5, (5, 0), y)],
      next_vertex = 6, next_edge = 6\<rparr>"

text \<open>
  Modelled from the spec: an oxygen-like vertex label, for the ``carbon--oxygen double
  bond'' of scenario 3 of section 8 (missing).
\<close>

definition oxygen :: AtomLabel where
  "oxygen = \<lparr>element = ''O'', isotope = 16, radicals = 0, lone_pairs = 2, charge = 0\<rparr>"

text \<open>
  Modelled from the spec: ``a molecule containing one carbon--oxygen double bond''
  (scenario 3 of section 8; missing), reduced to the two atoms of that bond.
\<close>

definition methanal :: Molecule where
  "methanal =
     \<lparr>vertex_arena = [(0, carbon), (1, oxygen)],
      edge_arena = [(0, (0, 1), Double)],
      next_vertex = 2, next_edge = 1\<rparr>"

text \<open>
  Modelled from the spec: a Group in the sense of sections 3 and 4.4 (module group is
  missing): an oxygen joined to a carbon, each vertex accepting one label, the edge
  accepting the double bond only.
\<close>

definition carbonyl :: Group where
  "carbonyl =
     \<lparr>vertex_arena = [(0, {oxygen}), (1, {carbon})],
      edge_arena = [(0, (0, 1), {Order Double})],
      next_vertex = 2, next_edge = 1\<rparr>"

text \<open>
  Modelled from the spec: a second Group (sections 3 and 4.4; missing) of the same shape
  under other vertex identifiers, with wider label sets: each vertex accepts carbon or
  oxygen, and the edge, stored in the other orientation, accepts the double bond and
  carries the ``any bond'' wildcard.
\<close>

definition double_bonded :: Group where
  "double_bonded =
     \<lparr>vertex_arena = [(5, {carbon, oxygen}), (6, {carbon, oxygen})],
      edge_arena = [(0, (6, 5), {Order Double, AnyBond})],
      next_vertex = 7, next_edge = 1\<rparr>"

section \<open>Properties of the build manifest\<close>

lemma list_remove_mem:
  "x \<in> set xs \<Longrightarrow>
   \<exists>pre post. xs = pre @ x # post \<and> x \<notin> set pre \<and> list_remove xs x = Inr (pre @ post)"
proof (induction xs)
  case Nil
  then show ?case by simp
next
  case (Cons y ys)
  show ?case
  proof (cases "y = x")
    case True
    then have "y # ys = [] @ x # ys \<and> x \<notin> set [] \<and> list_remove (y # ys) x = Inr ([] @ ys)"
      by simp
    then show ?thesis by blast
  next
    case False
    with Cons.prems have "x \<in> set ys" by simp
    from Cons.IH [OF this] obtain pre post
      where "ys = pre @ x # post" "x \<notin> set pre" "list_remove ys x = Inr (pre @ post)"
      by blast
    with False
    have "y # ys = (y # pre) @ x # post \<and> x \<notin> set (y # pre)
          \<and> list_remove (y # ys) x = Inr ((y # pre) @ post)"
      by simp
    then show ?thesis by blast
  qed
qed

lemma list_remove_absent: "x \<notin> set xs \<Longrightarrow> list_remove xs x = Inl ValueError"
  by (induction xs) auto

lemma remove_arg_mem:
  "k \<in> set (argv s) \<Longrightarrow>
   \<exists>pre post. argv s = pre @ k # post \<and> k \<notin> set pre
     \<and> remove_arg k s = Inr (s\<lparr>argv := pre @ post\<rparr>)"
proof -
  assume "k \<in> set (argv s)"
  from list_remove_mem [OF this] obtain pre post
    where "argv s = pre @ k # post" "k \<notin> set pre" "list_remove (argv s) k = Inr (pre @ post)"
    by blast
  then have "argv s = pre @ k # post \<and> k \<notin> set pre
      \<and> remove_arg k s = Inr (s\<lparr>argv := pre @ post\<rparr>)"
    by (simp add: remove_arg_def)
  then show ?thesis by blast
qed

lemma select_install:
  "''install'' \<in> set args \<Longrightarrow>
   select_ext_modules args =
     Inr \<lparr>argv = args,
          ext_modules = getMainExtensionModules @ getMeasureExtensionModules
                          @ getSolverExtensionModules\<rparr>"
  by (simp add: select_ext_modules_def extend_modules_def)

lemma select_keyword:
  assumes "k \<in> set args"
  shows "\<exists>pre post. args = pre @ k # post \<and> k \<notin> set pre
           \<and> (case remove_arg k \<lparr>argv = args, ext_modules = []\<rparr> of
                 Inl e \<Rightarrow> Inl e
               | Inr s' \<Rightarrow> Inr (extend_modules ms s'))
             = Inr \<lparr>argv = pre @ post, ext_modules = ms\<rparr>"
proof -
  from assms have "k \<in> set (argv \<lparr>argv = args, ext_modules = []\<rparr>)" by simp
  from remove_arg_mem [OF this] obtain pre post
    where "args = pre @ k # post" "k \<notin> set pre"
      "remove_arg k \<lparr>argv = args, ext_modules = []\<rparr>
         = Inr (\<lparr>argv = args, ext_modules = []\<rparr>\<lparr>argv := pre @ post\<rparr>)"
    by auto
  then have "args = pre @ k # post \<and> k \<notin> set pre
           \<and> (case remove_arg k \<lparr>argv = args, ext_modules = []\<rparr> of
                 Inl e \<Rightarrow> Inl e
               | Inr s' \<Rightarrow> Inr (extend_modules ms s'))
             = Inr \<lparr>argv = pre @ post, ext_modules = ms\<rparr>"
    by (simp add: extend_modules_def)
  then show ?thesis by blast
qed

lemma select_main:
  assumes "''install'' \<notin> set args" "''main'' \<in> set args"
  shows "\<exists>pre post. args = pre @ ''main'' # post \<and> ''main'' \<notin> set pre
           \<and> select_ext_modules args
             = Inr \<lparr>argv = pre @ post, ext_modules = getMainExtensionModules\<rparr>"
  using assms select_keyword [OF assms(2), of getMainExtensionModules]
  by (simp add: select_ext_modules_def)

lemma select_measure:
  assumes "''install'' \<notin> set args" "''main'' \<notin> set args" "''measure'' \<in> set args"
  shows "\<exists>pre post. args = pre @ ''measure'' # post \<and> ''measure'' \<notin> set pre
           \<and> select_ext_modules args
             = Inr \<lparr>argv = pre @ post, ext_modules = getMeasureExtensionModules\<rparr>"
  using assms select_keyword [OF assms(3), of getMeasureExtensionModules]
  by (simp add: select_ext_modules_def)

lemma select_solver:
  assumes "''install'' \<notin> set args" "''main'' \<notin> set args" "''measure'' \<notin> set args"
    "''solver'' \<in> set args"
  shows "\<exists>pre post. args = pre @ ''solver'' # post \<and> ''solver'' \<notin> set pre
           \<and> select_ext_modules args
             = Inr \<lparr>argv = pre @ post, ext_modules = getSolverExtensionModules\<rparr>"
  using assms select_keyword [OF assms(4), of getSolverExtensionModules]
  by (simp add: select_ext_modules_def)

lemma select_none:
  assumes "''install'' \<notin> set args" "''main'' \<notin> set args" "''measure'' \<notin> set args"
    "''solver'' \<notin> set args"
  shows "select_ext_modules args = Inr \<lparr>argv = args, ext_modules = []\<rparr>"
  using assms by (simp add: select_ext_modules_def)

lemma select_total: "\<exists>s. select_ext_modules args = Inr s"
proof (cases "''install'' \<in> set args")
  case True
  then show ?thesis by (simp add: select_install)
next
  case ni: False
  show ?thesis
  proof (cases "''main'' \<in> set args")
    case True
    with ni select_main [of args] show ?thesis by auto
  next
    case nm: False
    show ?thesis
    proof (cases "''measure'' \<in> set args")
      case True
      with ni nm select_measure [of args] show ?thesis by auto
    next
      case nme: False
      show ?thesis
      proof (cases "''solver'' \<in> set args")
        case True
        with ni nm nme select_solver [of args] show ?thesis by auto
      next
        case False
        with ni nm nme show ?thesis by (simp add: select_none)
      qed
    qed
  qed
qed

subsection \<open>The module inventory\<close>

text \<open>
  Claim C1. The build manifest declares exactly six extension modules under
  \<^verbatim>\<open>rmgpy.molecule\<close>, the chemical-graph core: atomtype, element, graph, group,
  molecule and symmetry. All six are in the main list, and neither the measure list nor
  the solver list adds one.
\<close>

theorem molecule_inventory:
  "molecule_modules manifest =
     [''rmgpy.molecule.atomtype'', ''rmgpy.molecule.element'', ''rmgpy.molecule.graph'',
      ''rmgpy.molecule.group'', ''rmgpy.molecule.molecule'', ''rmgpy.molecule.symmetry'']
   \<and> length (molecule_modules manifest) = 6
   \<and> molecule_modules getMainExtensionModules = molecule_modules manifest
   \<and> molecule_modules getMeasureExtensionModules = []
   \<and> molecule_modules getSolverExtensionModules = []"
  by (simp add: molecule_modules_def manifest_def getMainExtensionModules_def
      getMeasureExtensionModules_def getSolverExtensionModules_def mk_Extension_def)

subsection \<open>Which modules are selected\<close>

text \<open>
  Claim C8. The selection is decided by the first keyword present, in the order install,
  main, measure, solver. With \<^verbatim>\<open>install\<close> on the command line, \<^verbatim>\<open>ext_modules\<close> is
  the main list followed by the measure list and the solver list, whatever other keywords
  are there. Otherwise the first of main, measure, solver that is present selects its own
  list and nothing else, and with none of the four keywords \<^verbatim>\<open>ext_modules\<close> stays
  empty. The selection never raises.
\<close>

theorem select_priority:
  "\<exists>s. select_ext_modules args = Inr s \<and>
     ext_modules s =
       (if ''install'' \<in> set args then
          getMainExtensionModules @ getMeasureExtensionModules @ getSolverExtensionModules
        else if ''main'' \<in> set args then getMainExtensionModules
        else if ''measure'' \<in> set args then getMeasureExtensionModules
        else if ''solver'' \<in> set args then getSolverExtensionModules
        else [])"
proof (cases "''install'' \<in> set args")
  case True
  then show ?thesis by (simp add: select_install)
next
  case ni: False
  show ?thesis
  proof (cases "''main'' \<in> set args")
    case True
    with ni select_main [of args] show ?thesis by auto
  next
    case nm: False
    show ?thesis
    proof (cases "''measure'' \<in> set args")
      case True
      with ni nm select_measure [of args] show ?thesis by auto
    next
      case nme: False
      show ?thesis
      proof (cases "''solver'' \<in> set args")
        case True
        with ni nm nme select_solver [of args] show ?thesis by auto
      next
        case False
        with ni nm nme show ?thesis by (simp add: select_none)
      qed
    qed
  qed
qed

theorem select_priority_witness:
  "\<exists>s. select_ext_modules [''setup.py'', ''build_ext'', ''solver'', ''measure''] = Inr s
     \<and> ext_modules s = getMeasureExtensionModules"
  using select_priority [of "[''setup.py'', ''build_ext'', ''solver'', ''measure'']"]
  by simp

subsection \<open>Modules declared twice on install\<close>

text \<open>
  Claim C9. With \<^verbatim>\<open>install\<close> on the command line the resulting \<^verbatim>\<open>ext_modules\<close>
  holds two entries named \<^verbatim>\<open>rmgpy.constants\<close>, two named \<^verbatim>\<open>rmgpy.quantity\<close> and two
  named \<^verbatim>\<open>rmgpy._statmech\<close>: each of the three names is in the main list and in the
  measure list, and the lists are concatenated as they are.
\<close>

theorem install_duplicates:
  assumes "''install'' \<in> set args"
  shows "\<exists>s. select_ext_modules args = Inr s
     \<and> ext_modules s
         = getMainExtensionModules @ getMeasureExtensionModules @ getSolverExtensionModules
     \<and> (\<forall>n \<in> {''rmgpy.constants'', ''rmgpy.quantity'', ''rmgpy._statmech''}.
          count_list (map name (ext_modules s)) n = 2
          \<and> count_list (map name getMainExtensionModules) n = 1
          \<and> count_list (map name getMeasureExtensionModules) n = 1)"
proof -
  have "\<forall>n \<in> {''rmgpy.constants'', ''rmgpy.quantity'', ''rmgpy._statmech''}.
          count_list (map name (getMainExtensionModules @ getMeasureExtensionModules
                                  @ getSolverExtensionModules)) n = 2
          \<and> count_list (map name getMainExtensionModules) n = 1
          \<and> count_list (map name getMeasureExtensionModules) n = 1"
    by (simp add: getMainExtensionModules_def getMeasureExtensionModules_def
        getSolverExtensionModules_def mk_Extension_def)
  with assms show ?thesis by (simp add: select_install)
qed

theorem install_duplicates_witness:
  "\<exists>s. select_ext_modules [''setup.py'', ''install''] = Inr s
     \<and> count_list (map name (ext_modules s)) ''rmgpy.constants'' = 2
     \<and> count_list (map name (ext_modules s)) ''rmgpy.quantity'' = 2
     \<and> count_list (map name (ext_modules s)) ''rmgpy._statmech'' = 2"
proof -
  have "''install'' \<in> set [''setup.py'', ''install'']" by simp
  from install_duplicates [OF this] show ?thesis by auto
qed

subsection \<open>What happens to the command line\<close>

text \<open>
  Claim C10. In the main, measure and solver branches the selection removes exactly one
  occurrence of the selected keyword from \<^verbatim>\<open>sys.argv\<close>, the first one, and leaves every
  other element where it was; in the install branch and with none of the four keywords
  \<^verbatim>\<open>sys.argv\<close> is left as it was.
\<close>

theorem select_argv:
  "\<exists>s. select_ext_modules args = Inr s \<and>
     (if ''install'' \<in> set args then argv s = args
      else if ''main'' \<in> set args then
        (\<exists>pre post. args = pre @ ''main'' # post \<and> ''main'' \<notin> set pre \<and> argv s = pre @ post)
      else if ''measure'' \<in> set args then
        (\<exists>pre post. args = pre @ ''measure'' # post \<and> ''measure'' \<notin> set pre
           \<and> argv s = pre @ post)
      else if ''solver'' \<in> set args then
        (\<exists>pre post. args = pre @ ''solver'' # post \<and> ''solver'' \<notin> set pre
           \<and> argv s = pre @ post)
      else argv s = args)"
proof (cases "''install'' \<in> set args")
  case True
  then show ?thesis by (simp add: select_install)
next
  case ni: False
  show ?thesis
  proof (cases "''main'' \<in> set args")
    case True
    from select_main [OF ni True] obtain pre post
      where "args = pre @ ''main'' # post" "''main'' \<notin> set pre"
        "select_ext_modules args
           = Inr \<lparr>argv = pre @ post, ext_modules = getMainExtensionModules\<rparr>"
      by blast
    then have "select_ext_modules args
                 = Inr \<lparr>argv = pre @ post, ext_modules = getMainExtensionModules\<rparr>
        \<and> (\<exists>p q. args = p @ ''main'' # q \<and> ''main'' \<notin> set p
              \<and> argv \<lparr>argv = pre @ post, ext_modules = getMainExtensionModules\<rparr> = p @ q)"
      by auto
    with ni True show ?thesis by (simp del: ex_simps)
  next
    case nm: False
    show ?thesis
    proof (cases "''measure'' \<in> set args")
      case True
      from select_measure [OF ni nm True] obtain pre post
        where "args = pre @ ''measure'' # post" "''measure'' \<notin> set pre"
          "select_ext_modules args
             = Inr \<lparr>argv = pre @ post, ext_modules = getMeasureExtensionModules\<rparr>"
        by blast
      then have "select_ext_modules args
                   = Inr \<lparr>argv = pre @ post, ext_modules = getMeasureExtensionModules\<rparr>
          \<and> (\<exists>p q. args = p @ ''measure'' # q \<and> ''measure'' \<notin> set p
                \<and> argv \<lparr>argv = pre @ post, ext_modules = getMeasureExtensionModules\<rparr>
                    = p @ q)"
        by auto
      with ni nm True show ?thesis by (simp del: ex_simps)
    next
      case nme: False
      show ?thesis
      proof (cases "''solver'' \<in> set args")
        case True
        from select_solver [OF ni nm nme True] obtain pre post
          where "args = pre @ ''solver'' # post" "''solver'' \<notin> set pre"
            "select_ext_modules args
               = Inr \<lparr>argv = pre @ post, ext_modules = getSolverExtensionModules\<rparr>"
          by blast
        then have "select_ext_modules args
                     = Inr \<lparr>argv = pre @ post, ext_modules = getSolverExtensionModules\<rparr>
            \<and> (\<exists>p q. args = p @ ''solver'' # q \<and> ''solver'' \<notin> set p
                  \<and> argv \<lparr>argv = pre @ post, ext_modules = getSolverExtensionModules\<rparr>
                      = p @ q)"
          by auto
        with ni nm nme True show ?thesis by (simp del: ex_simps)
      next
        case False
        with ni nm nme show ?thesis by (simp add: select_none)
      qed
    qed
  qed
qed

theorem select_argv_witness:
  "\<exists>s. select_ext_modules [''setup.py'', ''main'', ''build_ext'', ''main'', ''solver''] = Inr s
     \<and> argv s = [''setup.py'', ''build_ext'', ''main'', ''solver'']"
proof -
  let ?a = "[''setup.py'', ''main'', ''build_ext'', ''main'', ''solver'']"
  from select_argv [of ?a] obtain s pre post
    where s: "select_ext_modules ?a = Inr s"
      and a: "?a = pre @ ''main'' # post" "''main'' \<notin> set pre" "argv s = pre @ post"
    by auto
  from a(1,2) have "pre = [''setup.py'']"
    by (auto simp: append_eq_Cons_conv Cons_eq_append_conv)
  with a have "argv s = [''setup.py'', ''build_ext'', ''main'', ''solver'']" by simp
  with s show ?thesis by simp
qed

section \<open>Properties of the chemical-graph core\<close>

subsection \<open>Graph core\<close>

lemma find_app:
  "find P (xs @ ys) = (case find P xs of None \<Rightarrow> find P ys | Some x \<Rightarrow> Some x)"
  by (induction xs) auto

lemma edgeBetween_None: "edgeBetween g a b = None \<longleftrightarrow> \<not> hasEdge g a b"
  by (auto simp: edgeBetween_def hasEdge_def find_None_iff list_ex_iff)

lemma hasEdge_hasVertex:
  "arena_inv g \<Longrightarrow> hasEdge g a b \<Longrightarrow> hasVertex g a \<and> hasVertex g b"
  by (auto simp: arena_inv_def hasEdge_def list_ex_iff list_all_iff joins_def)

lemma addEdge_ok:
  assumes "arena_inv g"
  shows "addEdge g v1 v2 l =
     (if hasEdge g v1 v2 then Inl DuplicateEdge
      else if \<not> hasVertex g v1 \<or> \<not> hasVertex g v2 then Inl UnknownVertex
      else Inr (next_edge g,
                g\<lparr>edge_arena := edge_arena g @ [(next_edge g, (v1, v2), l)],
                  next_edge := Suc (next_edge g)\<rparr>))"
  using hasEdge_hasVertex [OF assms, of v1 v2] by (auto simp: addEdge_def)

lemma addEdge_fresh:
  assumes "arena_inv g" "addEdge g v1 v2 l = Inr (e, g')"
  shows "e \<notin> set (edges g) \<and> set (edges g') = insert e (set (edges g))
     \<and> hasEdge g' v1 v2 \<and> edgeBetween g' v1 v2 = Some l \<and> vertices g' = vertices g \<and> arena_inv g'"
  using assms
proof -
  from assms(2) have hv: "hasVertex g v1" "hasVertex g v2" and ne: "\<not> hasEdge g v1 v2"
    and e: "e = next_edge g"
    and g': "g' = g\<lparr>edge_arena := edge_arena g @ [(next_edge g, (v1, v2), l)],
                  next_edge := Suc (next_edge g)\<rparr>"
    by (auto simp: addEdge_def split: if_splits)
  from assms(1) e have "e \<notin> set (edges g)"
    by (auto simp: arena_inv_def list_all_iff)
  moreover from e g' have "set (edges g') = insert e (set (edges g))"
    by (simp add: edges_def)
  moreover from g' have "hasEdge g' v1 v2"
    by (simp add: hasEdge_def joins_def)
  moreover from ne have "find (joins v1 v2) (edge_arena g) = None"
    by (auto simp: hasEdge_def find_None_iff list_ex_iff)
  with g' have "edgeBetween g' v1 v2 = Some l"
    by (simp add: edgeBetween_def find_app joins_def)
  moreover from g' have "vertices g' = vertices g"
    by (simp add: vertices_def)
  moreover from assms(1) hv g' have "arena_inv g'"
    by (auto simp: arena_inv_def list_all_iff edges_def vertices_def hasVertex_def)
  ultimately show ?thesis by blast
qed

lemma find_joins_sym: "find (joins a b) es = find (joins b a) es"
  by (induction es) (auto simp: joins_def)

lemma edgeBetween_sym: "edgeBetween g a b = edgeBetween g b a"
  unfolding edgeBetween_def by (rule arg_cong [where f = "map_option _"]) (rule find_joins_sym)

lemma labelsOf_vertex: "u \<in> set (vertices g) \<Longrightarrow> \<exists>l. labelsOf g u = Some l"
  unfolding labelsOf_def vertices_def
  by (cases "map_of (vertex_arena g) u") (simp_all add: map_of_eq_None_iff)

lemma labelsOf_absent: "u \<notin> set (vertices g) \<Longrightarrow> labelsOf g u = None"
  unfolding labelsOf_def vertices_def by (simp add: map_of_eq_None_iff)

subsection \<open>Mappings that satisfy a query\<close>

lemma edgeFits_sym: "edgeFits q u u' c c' = edgeFits q u' u c' c"
  unfolding edgeFits_def
  by (rule arg_cong2 [where f = "labelFits q"]) (rule edgeBetween_sym)+

lemma embeds_iff:
  "embeds q m \<longleftrightarrow>
     distinct (map fst m) \<and> distinct (map snd m)
     \<and> (\<forall>(u, c) \<in> set m. hasVertex (target q) c \<and> vertexFits q u c)
     \<and> (\<forall>(u, c) \<in> set m. \<forall>(u', c') \<in> set m. u \<noteq> u' \<longrightarrow> edgeFits q u u' c c')"
  unfolding embeds_def list_all_iff by (intro conj_cong refl ball_cong) auto

lemma embedsI:
  assumes "distinct (map fst m)" "distinct (map snd m)"
    and "\<And>u c. (u, c) \<in> set m \<Longrightarrow> hasVertex (target q) c \<and> vertexFits q u c"
    and "\<And>u c u' c'. (u, c) \<in> set m \<Longrightarrow> (u', c') \<in> set m \<Longrightarrow> u \<noteq> u'
           \<Longrightarrow> edgeFits q u u' c c'"
  shows "embeds q m"
  unfolding embeds_iff
proof (intro conjI ballI)
  show "distinct (map fst m)" "distinct (map snd m)" by fact+
next
  fix x assume "x \<in> set m"
  then show "case x of (u, c) \<Rightarrow> hasVertex (target q) c \<and> vertexFits q u c"
    using assms(3) [of "fst x" "snd x"] by (simp add: case_prod_beta)
next
  fix x y assume "x \<in> set m" "y \<in> set m"
  then show "case x of (u, c) \<Rightarrow> \<forall>(u', c') \<in> set m. u \<noteq> u' \<longrightarrow> edgeFits q u u' c c'"
    using assms(4) [of "fst x" "snd x"] by (simp add: case_prod_beta)
qed

lemma embeds_Nil: "embeds q []"
  by (simp add: embeds_def)

lemma embeds_edge:
  "embeds q m \<Longrightarrow> (u, c) \<in> set m \<Longrightarrow> (u', c') \<in> set m \<Longrightarrow> u \<noteq> u' \<Longrightarrow> edgeFits q u u' c c'"
  unfolding embeds_iff by fast

lemma embeds_vertex:
  "embeds q m \<Longrightarrow> (u, c) \<in> set m \<Longrightarrow> hasVertex (target q) c \<and> vertexFits q u c"
  unfolding embeds_iff by fast

lemma embeds_snoc:
  assumes u: "u \<notin> set (map fst m)"
  shows "embeds q (m @ [(u, c)]) \<longleftrightarrow>
           embeds q m \<and> hasVertex (target q) c \<and> admissible q m u c"
proof
  assume e: "embeds q (m @ [(u, c)])"
  have ne: "u' \<noteq> u" if "(u', c') \<in> set m" for u' c'
    using that u by force
  from e have d: "distinct (map fst m)" "distinct (map snd m)" "c \<notin> set (map snd m)"
    by (simp_all add: embeds_iff)
  have v: "hasVertex (target q) c' \<and> vertexFits q u' c'" if "(u', c') \<in> set m" for u' c'
    using embeds_vertex [OF e, of u' c'] that by simp
  have ed: "edgeFits q a a' b b'" if "(a, b) \<in> set m" "(a', b') \<in> set m" "a \<noteq> a'"
    for a a' b b'
    using embeds_edge [OF e, of a b a' b'] that by simp
  have "embeds q m"
    by (rule embedsI) (use d v ed in blast)+
  moreover have "hasVertex (target q) c" "vertexFits q u c"
    using embeds_vertex [OF e, of u c] by simp_all
  moreover have "edgeFits q u u' c c'" if "(u', c') \<in> set m" for u' c'
    using embeds_edge [OF e, of u c u' c'] that ne [OF that] by simp
  then have "list_all (\<lambda>(u', c'). edgeFits q u u' c c') m"
    unfolding list_all_iff by blast
  ultimately show "embeds q m \<and> hasVertex (target q) c \<and> admissible q m u c"
    using d(3) by (simp add: admissible_def)
next
  assume a: "embeds q m \<and> hasVertex (target q) c \<and> admissible q m u c"
  then have e: "embeds q m" and hv: "hasVertex (target q) c"
    and c: "c \<notin> set (map snd m)" and vf: "vertexFits q u c"
    and la: "list_all (\<lambda>(u', c'). edgeFits q u u' c c') m"
    by (simp_all add: admissible_def)
  from la have uf: "edgeFits q u u' c c'" if "(u', c') \<in> set m" for u' c'
    using that unfolding list_all_iff by blast
  have fu: "edgeFits q u' u c' c" if "(u', c') \<in> set m" for u' c'
    using uf [OF that] edgeFits_sym [of q u' u c' c] by simp
  from e u c have d: "distinct (map fst (m @ [(u, c)]))" "distinct (map snd (m @ [(u, c)]))"
    by (simp_all add: embeds_iff)
  have v: "hasVertex (target q) b \<and> vertexFits q a b" if "(a, b) \<in> set (m @ [(u, c)])" for a b
    using that embeds_vertex [OF e, of a b] hv vf by auto
  have ed: "edgeFits q a a' b b'"
    if "(a, b) \<in> set (m @ [(u, c)])" "(a', b') \<in> set (m @ [(u, c)])" "a \<noteq> a'" for a a' b b'
    using that embeds_edge [OF e, of a b a' b'] uf [of a' b'] fu [of a b] by auto
  show "embeds q (m @ [(u, c)])"
    by (rule embedsI) (use d v ed in blast)+
qed

lemma embeds_prefix:
  assumes "embeds q (m @ m')"
  shows "embeds q m"
proof -
  from assms have d: "distinct (map fst m)" "distinct (map snd m)"
    by (simp_all add: embeds_iff)
  have v: "hasVertex (target q) b \<and> vertexFits q a b" if "(a, b) \<in> set m" for a b
    using that embeds_vertex [OF assms, of a b] by simp
  have ed: "edgeFits q a a' b b'" if "(a, b) \<in> set m" "(a', b') \<in> set m" "a \<noteq> a'"
    for a a' b b'
    using that embeds_edge [OF assms, of a b a' b'] by simp
  show ?thesis by (rule embedsI) (use d v ed in blast)+
qed

subsection \<open>What the search enumerates\<close>

lemma collect_candidates_concat:
  "collect_candidates q u cs us m = concat (map (\<lambda>c. search_all q us (m @ [(u, c)])) cs)"
  by (induction cs) simp_all

lemma search_all_Cons:
  "r \<in> set (search_all q (u # us) m) \<longleftrightarrow>
     (\<exists>c \<in> set (candidates q m u). r \<in> set (search_all q us (m @ [(u, c)])))"
  by (simp add: collect_candidates_concat)

lemma search_all_mem:
  "embeds q m \<Longrightarrow> distinct (map fst m @ us) \<Longrightarrow>
   r \<in> set (search_all q us m) \<longleftrightarrow> (\<exists>m'. r = m @ m' \<and> map fst m' = us \<and> embeds q r)"
proof (induction us arbitrary: m)
  case Nil
  then show ?case by auto
next
  case (Cons u us)
  from Cons.prems have u: "u \<notin> set (map fst m)" by auto
  from Cons.prems(2) have d: "distinct (map fst (m @ [(u, c)]) @ us)" for c by auto
  show ?case
  proof
    assume "r \<in> set (search_all q (u # us) m)"
    then obtain c where c: "c \<in> set (candidates q m u)"
      and r: "r \<in> set (search_all q us (m @ [(u, c)]))"
      unfolding search_all_Cons by blast
    from c have "hasVertex (target q) c" "admissible q m u c"
      by (simp_all add: candidates_def hasVertex_def)
    with Cons.prems(1) u have e: "embeds q (m @ [(u, c)])"
      by (simp add: embeds_snoc)
    from r Cons.IH [OF e d] obtain m' where "r = (m @ [(u, c)]) @ m'" "map fst m' = us"
      "embeds q r" by blast
    then have "r = m @ ((u, c) # m') \<and> map fst ((u, c) # m') = u # us \<and> embeds q r"
      by simp
    then show "\<exists>m'. r = m @ m' \<and> map fst m' = u # us \<and> embeds q r" by (rule exI)
  next
    assume "\<exists>m'. r = m @ m' \<and> map fst m' = u # us \<and> embeds q r"
    then obtain m' where "r = m @ m' \<and> map fst m' = u # us \<and> embeds q r" ..
    then have r: "r = m @ m'" and f: "map fst m' = u # us" and e: "embeds q r"
      by iprover+
    from f obtain c m'' where m': "m' = (u, c) # m''" and f': "map fst m'' = us"
      by (cases m') auto
    from r m' have r': "r = (m @ [(u, c)]) @ m''" by simp
    from e have "embeds q ((m @ [(u, c)]) @ m'')" unfolding r' .
    then have e': "embeds q (m @ [(u, c)])" by (rule embeds_prefix)
    with u have "hasVertex (target q) c" "admissible q m u c"
      by (simp_all add: embeds_snoc)
    then have c: "c \<in> set (candidates q m u)"
      by (simp add: candidates_def hasVertex_def)
    from r' f' e have "\<exists>m'. r = (m @ [(u, c)]) @ m' \<and> map fst m' = us \<and> embeds q r"
      by blast
    with Cons.IH [OF e' d] have "r \<in> set (search_all q us (m @ [(u, c)]))" by blast
    with c show "r \<in> set (search_all q (u # us) m)"
      unfolding search_all_Cons by blast
  qed
qed

lemma collect_candidates_mem:
  "r \<in> set (collect_candidates q u cs us m) \<longleftrightarrow>
     (\<exists>c \<in> set cs. r \<in> set (search_all q us (m @ [(u, c)])))"
  by (simp add: collect_candidates_concat)

lemma search_all_prefix:
  "r \<in> set (search_all q us m) \<Longrightarrow> take (length m) r = m"
proof (induction us arbitrary: m)
  case Nil
  then show ?case by simp
next
  case (Cons u us)
  then obtain c where "r \<in> set (search_all q us (m @ [(u, c)]))"
    unfolding search_all_Cons by blast
  from Cons.IH [OF this] have "take (Suc (length m)) r = m @ [(u, c)]" by simp
  then have "take (length m) (take (Suc (length m)) r) = take (length m) (m @ [(u, c)])"
    by simp
  then show ?case by (simp add: min_def)
qed

lemma collect_candidates_distinct:
  assumes "distinct cs" and "\<And>c. distinct (search_all q us (m @ [(u, c)]))"
  shows "distinct (collect_candidates q u cs us m)"
  using assms(1)
proof (induction cs)
  case Nil
  then show ?case by simp
next
  case (Cons c cs)
  have "set (search_all q us (m @ [(u, c)])) \<inter> set (collect_candidates q u cs us m) = {}"
  proof (rule ccontr)
    assume "\<not> ?thesis"
    then obtain r where r1: "r \<in> set (search_all q us (m @ [(u, c)]))"
      and "r \<in> set (collect_candidates q u cs us m)" by blast
    then obtain c' where c': "c' \<in> set cs" and r2: "r \<in> set (search_all q us (m @ [(u, c')]))"
      unfolding collect_candidates_mem by blast
    from search_all_prefix [OF r1] search_all_prefix [OF r2]
    have "m @ [(u, c)] = m @ [(u, c')]" by simp
    then have "c = c'" by simp
    with c' Cons.prems show False by simp
  qed
  with Cons assms(2) show ?case by simp
qed

lemma search_all_distinct:
  assumes "distinct (vertices (target q))"
  shows "distinct (search_all q us m)"
proof (induction us arbitrary: m)
  case Nil
  then show ?case by simp
next
  case (Cons u us)
  from assms have "distinct (candidates q m u)" by (simp add: candidates_def)
  then show ?case using Cons.IH by (simp add: collect_candidates_distinct)
qed

lemma first_of_append:
  "first_of (xs @ ys) = (case first_of xs of Some r \<Rightarrow> Some r | None \<Rightarrow> first_of ys)"
  by (cases xs) (simp_all add: first_of_def)

lemma search_first_of:
  "search q us m = first_of (search_all q us m)"
  "try_candidates q u cs us m = first_of (collect_candidates q u cs us m)"
proof (induction q us m and q u cs us m rule: search_try_candidates.induct)
  case (1 q m)
  then show ?case by (simp add: first_of_def)
next
  case (2 q u us m)
  then show ?case by simp
next
  case (3 q u us m)
  then show ?case by (simp add: first_of_def)
next
  case (4 q u c cs us m)
  then show ?case by (simp add: first_of_append split: option.splits)
qed

lemma searchOrder_set: "set (searchOrder g) = set (vertices g)"
  by (simp add: searchOrder_def)

lemma searchOrder_distinct: "distinct (vertices g) \<Longrightarrow> distinct (searchOrder g)"
  by (simp add: searchOrder_def)

lemma searchOrder_length: "length (searchOrder g) = length (vertices g)"
  by (simp add: searchOrder_def)

lemma search_all_full:
  assumes "distinct us"
  shows "r \<in> set (search_all q us []) \<longleftrightarrow> map fst r = us \<and> embeds q r"
  using search_all_mem [of q "[]" us r] assms by (simp add: embeds_Nil)

subsection \<open>Automorphisms\<close>

lemma labelFits_exact: "labelFits (exactQuery a b) pe te \<longleftrightarrow> pe = te"
  by (cases pe; cases te) (simp_all add: labelFits_def exactQuery_def)

lemma exactQuery_sel:
  "pattern (exactQuery a b) = a" "target (exactQuery a b) = b"
  by (simp_all add: exactQuery_def)

lemma edgeFits_exact:
  "edgeFits (exactQuery a b) u u' c c' \<longleftrightarrow> edgeBetween a u u' = edgeBetween b c c'"
  by (simp only: edgeFits_def labelFits_exact exactQuery_sel)

lemma vertexFits_exact:
  "vertexFits (exactQuery a b) u c \<longleftrightarrow>
     u \<in> set (vertices a) \<and> c \<in> set (vertices b) \<and> labelsOf a u = labelsOf b c"
proof (cases "u \<in> set (vertices a)")
  case False
  then show ?thesis by (simp add: vertexFits_def exactQuery_def labelsOf_absent)
next
  case ua: True
  then obtain l where l: "labelsOf a u = Some l" using labelsOf_vertex by blast
  show ?thesis
  proof (cases "c \<in> set (vertices b)")
    case False
    then show ?thesis by (simp add: vertexFits_def exactQuery_def labelsOf_absent l)
  next
    case True
    then obtain l' where "labelsOf b c = Some l'" using labelsOf_vertex by blast
    with l ua True show ?thesis by (simp add: vertexFits_def exactQuery_def)
  qed
qed

lemma applyMapping_mem:
  "distinct (map fst m) \<Longrightarrow> (u, c) \<in> set m \<Longrightarrow> applyMapping m u = c"
  by (simp add: applyMapping_def)

lemma mapping_graph:
  assumes "distinct (map fst m)"
  shows "m = map (\<lambda>u. (u, applyMapping m u)) (map fst m)"
proof -
  have "(\<lambda>p. (fst p, applyMapping m (fst p))) x = x" if "x \<in> set m" for x
    using applyMapping_mem [OF assms, of "fst x" "snd x"] that by simp
  then have "map (\<lambda>p. (fst p, applyMapping m (fst p))) m = m"
    by (simp add: map_idI)
  then show ?thesis by (simp add: comp_def)
qed

lemma applyMapping_graph:
  "distinct us \<Longrightarrow> u \<in> set us \<Longrightarrow> applyMapping (map (\<lambda>u. (u, f u)) us) u = f u"
  by (rule applyMapping_mem) (auto simp: comp_def)

lemma embeds_exact_iff:
  assumes d: "distinct us" and s: "set us = set (vertices g)"
  shows "embeds (exactQuery g g) (map (\<lambda>u. (u, f u)) us) \<longleftrightarrow> is_automorphism g f"
proof
  let ?m = "map (\<lambda>u. (u, f u)) us"
  let ?V = "set (vertices g)"
  assume e: "embeds (exactQuery g g) ?m"
  have mem: "(u, f u) \<in> set ?m" if "u \<in> ?V" for u
    using that s by auto
  from e have ds: "distinct (map f us)"
    by (simp add: embeds_iff comp_def)
  then have inj: "inj_on f ?V"
    using s by (simp add: distinct_map)
  have img: "f u \<in> ?V" if "u \<in> ?V" for u
    using embeds_vertex [OF e mem [OF that]] by (simp add: hasVertex_def exactQuery_sel)
  have "card (f ` ?V) = card ?V" using inj by (rule card_image)
  moreover have "f ` ?V \<subseteq> ?V" using img by blast
  ultimately have "f ` ?V = ?V" by (simp add: card_subset_eq)
  with inj have bij: "bij_betw f ?V ?V" by (simp add: bij_betw_def)
  have lab: "labelsOf g (f u) = labelsOf g u" if "u \<in> ?V" for u
    using embeds_vertex [OF e mem [OF that]] by (simp add: vertexFits_exact)
  have edg: "edgeBetween g (f u) (f u') = edgeBetween g u u'"
    if "u \<in> ?V" "u' \<in> ?V" "u \<noteq> u'" for u u'
    using embeds_edge [OF e mem [OF that(1)] mem [OF that(2)] that(3)]
    by (simp add: edgeFits_exact)
  show "is_automorphism g f"
    unfolding is_automorphism_def using bij lab edg by blast
next
  let ?m = "map (\<lambda>u. (u, f u)) us"
  let ?V = "set (vertices g)"
  assume a: "is_automorphism g f"
  then have bij: "bij_betw f ?V ?V"
    and lab: "\<And>u. u \<in> ?V \<Longrightarrow> labelsOf g (f u) = labelsOf g u"
    and edg: "\<And>u u'. u \<in> ?V \<Longrightarrow> u' \<in> ?V \<Longrightarrow> u \<noteq> u'
                \<Longrightarrow> edgeBetween g (f u) (f u') = edgeBetween g u u'"
    unfolding is_automorphism_def by blast+
  from bij have inj: "inj_on f ?V" and img: "f ` ?V = ?V"
    by (simp_all add: bij_betw_def)
  show "embeds (exactQuery g g) ?m"
  proof (rule embedsI)
    show "distinct (map fst ?m)" using d by (simp add: comp_def)
    show "distinct (map snd ?m)" using d inj s by (simp add: comp_def distinct_map)
  next
    fix u c assume "(u, c) \<in> set ?m"
    then have u: "u \<in> ?V" and c: "c = f u" using s by auto
    from u img have "f u \<in> ?V" by blast
    with u c lab [OF u]
    show "hasVertex (target (exactQuery g g)) c \<and> vertexFits (exactQuery g g) u c"
      by (simp add: hasVertex_def exactQuery_sel vertexFits_exact)
  next
    fix u c u' c' assume "(u, c) \<in> set ?m" "(u', c') \<in> set ?m" "u \<noteq> u'"
    then have "u \<in> ?V" "u' \<in> ?V" "c = f u" "c' = f u'" "u \<noteq> u'" using s by auto
    then show "edgeFits (exactQuery g g) u u' c c'"
      using edg [of u u'] by (simp add: edgeFits_exact)
  qed
qed

lemma is_automorphism_id: "is_automorphism g (\<lambda>u. u)"
  by (simp add: is_automorphism_def bij_betw_def)

lemma is_automorphism_comp:
  assumes "is_automorphism g f" "is_automorphism g h"
  shows "is_automorphism g (\<lambda>u. h (f u))"
proof -
  let ?V = "set (vertices g)"
  from assms have bf: "bij_betw f ?V ?V" and bh: "bij_betw h ?V ?V"
    by (simp_all add: is_automorphism_def)
  have in_f: "f u \<in> ?V" if "u \<in> ?V" for u
    using bf that by (auto simp: bij_betw_def)
  have ne_f: "f u \<noteq> f u'" if "u \<in> ?V" "u' \<in> ?V" "u \<noteq> u'" for u u'
    using bf that by (auto simp: bij_betw_def inj_on_def)
  have "bij_betw (h \<circ> f) ?V ?V" using bf bh by (rule bij_betw_trans)
  then have b: "bij_betw (\<lambda>u. h (f u)) ?V ?V" by (simp add: comp_def)
  have l: "labelsOf g (h (f u)) = labelsOf g u" if "u \<in> ?V" for u
    using assms that in_f [OF that] by (simp add: is_automorphism_def)
  have e: "edgeBetween g (h (f u)) (h (f u')) = edgeBetween g u u'"
    if "u \<in> ?V" "u' \<in> ?V" "u \<noteq> u'" for u u'
  proof -
    from assms(2) in_f [OF that(1)] in_f [OF that(2)] ne_f [OF that]
    have "edgeBetween g (h (f u)) (h (f u')) = edgeBetween g (f u) (f u')"
      unfolding is_automorphism_def by blast
    also from assms(1) that have "\<dots> = edgeBetween g u u'"
      unfolding is_automorphism_def by blast
    finally show ?thesis .
  qed
  show ?thesis unfolding is_automorphism_def using b l e by blast
qed

lemma is_automorphism_inv:
  assumes "is_automorphism g f"
  shows "is_automorphism g (inv_into (set (vertices g)) f)"
proof -
  let ?V = "set (vertices g)"
  let ?h = "inv_into ?V f"
  from assms have bf: "bij_betw f ?V ?V" by (simp add: is_automorphism_def)
  then have bh: "bij_betw ?h ?V ?V" by (rule bij_betw_inv_into)
  have in_h: "?h u \<in> ?V" if "u \<in> ?V" for u
    using bh that by (auto simp: bij_betw_def)
  have fh: "f (?h u) = u" if "u \<in> ?V" for u
    using bf that by (simp add: bij_betw_inv_into_right)
  have ne_h: "?h u \<noteq> ?h u'" if "u \<in> ?V" "u' \<in> ?V" "u \<noteq> u'" for u u'
    using fh [OF that(1)] fh [OF that(2)] that(3) by metis
  have l: "labelsOf g (?h u) = labelsOf g u" if "u \<in> ?V" for u
  proof -
    from assms in_h [OF that] have "labelsOf g (f (?h u)) = labelsOf g (?h u)"
      unfolding is_automorphism_def by blast
    then show ?thesis by (simp add: fh [OF that])
  qed
  have e: "edgeBetween g (?h u) (?h u') = edgeBetween g u u'"
    if "u \<in> ?V" "u' \<in> ?V" "u \<noteq> u'" for u u'
  proof -
    from assms in_h [OF that(1)] in_h [OF that(2)] ne_h [OF that]
    have "edgeBetween g (f (?h u)) (f (?h u')) = edgeBetween g (?h u) (?h u')"
      unfolding is_automorphism_def by blast
    then show ?thesis by (simp add: fh [OF that(1)] fh [OF that(2)])
  qed
  show ?thesis unfolding is_automorphism_def using bh l e by blast
qed

lemma automorphism_mem:
  assumes d: "distinct us" and s: "set us = set (vertices g)"
  shows "r \<in> set (search_all (exactQuery g g) us []) \<longleftrightarrow>
           map fst r = us \<and> is_automorphism g (applyMapping r)"
proof (cases "map fst r = us")
  case False
  then show ?thesis by (simp add: search_all_full [OF d])
next
  case True
  with d have "distinct (map fst r)" by simp
  from mapping_graph [OF this] True
  have r: "r = map (\<lambda>u. (u, applyMapping r u)) us" by simp
  have "embeds (exactQuery g g) r \<longleftrightarrow> is_automorphism g (applyMapping r)"
    using embeds_exact_iff [OF d s, of "applyMapping r"] r by simp
  with True show ?thesis by (simp add: search_all_full [OF d])
qed

lemma automorphism_graph_mem:
  assumes d: "distinct us" and s: "set us = set (vertices g)" and a: "is_automorphism g f"
  shows "map (\<lambda>u. (u, f u)) us \<in> set (search_all (exactQuery g g) us [])"
  using embeds_exact_iff [OF d s, of f] a by (simp add: search_all_full [OF d] comp_def)

lemma identity_mem:
  assumes "distinct us" "set us = set (vertices g)"
  shows "identityMapping us \<in> set (search_all (exactQuery g g) us [])"
  unfolding identityMapping_def
  using automorphism_graph_mem [OF assms is_automorphism_id] .

lemma compose_mem:
  assumes d: "distinct us" and s: "set us = set (vertices g)"
    and a: "a \<in> set (search_all (exactQuery g g) us [])"
    and b: "b \<in> set (search_all (exactQuery g g) us [])"
  shows "composeMapping a b \<in> set (search_all (exactQuery g g) us [])"
proof -
  from a b have fa: "map fst a = us" "is_automorphism g (applyMapping a)"
    and fb: "is_automorphism g (applyMapping b)"
    by (simp_all add: automorphism_mem [OF d s])
  from fa(1) d have "distinct (map fst a)" by simp
  from mapping_graph [OF this] fa(1)
  have ga: "a = map (\<lambda>u. (u, applyMapping a u)) us" by simp
  have "composeMapping a b
          = map (\<lambda>(u, c). (u, applyMapping b c)) (map (\<lambda>u. (u, applyMapping a u)) us)"
    unfolding composeMapping_def using ga by simp
  also have "\<dots> = map (\<lambda>u. (u, applyMapping b (applyMapping a u))) us"
    by (simp add: comp_def)
  finally show ?thesis
    using automorphism_graph_mem [OF d s is_automorphism_comp [OF fa(2) fb]] by simp
qed

lemma inverse_mem:
  assumes d: "distinct us" and s: "set us = set (vertices g)"
    and a: "a \<in> set (search_all (exactQuery g g) us [])"
  shows "inverseMapping a \<in> set (search_all (exactQuery g g) us [])"
proof -
  let ?V = "set (vertices g)"
  let ?f = "applyMapping a"
  let ?sw = "map (\<lambda>(x, y). (y, x)) a"
  from a have fa: "map fst a = us" "is_automorphism g ?f"
    by (simp_all add: automorphism_mem [OF d s])
  from fa(1) d have "distinct (map fst a)" by simp
  from mapping_graph [OF this] fa(1)
  have ga: "a = map (\<lambda>u. (u, ?f u)) us" by simp
  from fa(2) have bij: "bij_betw ?f ?V ?V" by (simp add: is_automorphism_def)
  then have inj: "inj_on ?f ?V" by (simp add: bij_betw_def)
  have sw: "?sw = map (\<lambda>u. (?f u, u)) us"
  proof -
    have "?sw = map (\<lambda>(x, y). (y, x)) (map (\<lambda>u. (u, ?f u)) us)" using ga by simp
    then show ?thesis by (simp add: comp_def)
  qed
  have dsw: "distinct (map fst ?sw)"
    unfolding sw using d inj s by (simp add: comp_def distinct_map)
  have inv: "applyMapping ?sw u = inv_into ?V ?f u" if "u \<in> set us" for u
  proof -
    from that s have u: "u \<in> ?V" by simp
    with bij have i: "inv_into ?V ?f u \<in> ?V" and fi: "?f (inv_into ?V ?f u) = u"
      by (auto simp: bij_betw_def inv_into_into f_inv_into_f)
    from i s have "(?f (inv_into ?V ?f u), inv_into ?V ?f u) \<in> set (map (\<lambda>u. (?f u, u)) us)"
      by auto
    with fi have "(u, inv_into ?V ?f u) \<in> set ?sw" unfolding sw by simp
    from applyMapping_mem [OF dsw this] show ?thesis .
  qed
  have "inverseMapping a = map (\<lambda>(u, c). (u, applyMapping ?sw u)) (map (\<lambda>u. (u, ?f u)) us)"
    unfolding inverseMapping_def using ga by simp
  also have "\<dots> = map (\<lambda>u. (u, applyMapping ?sw u)) us"
    by (simp add: comp_def)
  also have "\<dots> = map (\<lambda>u. (u, inv_into ?V ?f u)) us"
    using inv by simp
  finally show ?thesis
    using automorphism_graph_mem [OF d s is_automorphism_inv [OF fa(2)]] by simp
qed

lemma ethene_simple: "simpleGraph ethene"
  by (simp add: simpleGraph_def ethene_def vertices_def hasVertex_def)

subsection \<open>The bounded search\<close>

lemma bounded_search_eq:
  "bounded_search q us m b =
     (if search_steps q us m \<le> b
      then (toOutcome (search q us m), b - search_steps q us m)
      else (SearchAborted, 0))"
  "bounded_try q u cs us m b =
     (if try_steps q u cs us m \<le> b
      then (toOutcome (try_candidates q u cs us m), b - try_steps q u cs us m)
      else (SearchAborted, 0))"
proof (induction q us m b and q u cs us m b rule: bounded_search_bounded_try.induct)
  case (1 q us m)
  then show ?case by (cases us) simp_all
next
  case (2 q m b)
  then show ?case by (simp add: toOutcome_def)
next
  case (3 q u us m b)
  then show ?case by simp
next
  case (4 q u us m b)
  then show ?case by (simp add: toOutcome_def)
next
  case (5 q u c cs us m b)
  let ?s = "search_steps q us (m @ [(u, c)])"
  show ?case
  proof (cases "?s \<le> b")
    case False
    with 5(1) show ?thesis by simp
  next
    case le: True
    show ?thesis
    proof (cases "search q us (m @ [(u, c)])")
      case (Some r)
      with le 5(1) show ?thesis by (simp add: toOutcome_def)
    next
      case None
      with le 5(1) have bs: "bounded_search q us (m @ [(u, c)]) b = (NoMatch, b - ?s)"
        by (simp add: toOutcome_def)
      from 5(2) [OF bs [symmetric] refl] bs None le show ?thesis
        by (auto simp: toOutcome_def)
    qed
  qed
qed

subsection \<open>The invariant of the arena\<close>

lemma hasEdge_sym: "hasEdge g a b = hasEdge g b a"
  by (auto simp: hasEdge_def list_ex_iff joins_def)

lemma arena_inv_empty: "arena_inv emptyGraph"
  by (simp add: arena_inv_def emptyGraph_def vertices_def edges_def)

lemma arena_inv_addVertex: "arena_inv g \<Longrightarrow> arena_inv (snd (addVertex g l))"
  by (auto simp: arena_inv_def addVertex_def vertices_def edges_def hasVertex_def list_all_iff)

lemma ethene_arena_inv: "arena_inv ethene"
  by (simp add: arena_inv_def ethene_def vertices_def edges_def hasVertex_def)

lemma ring6_simple: "simpleGraph (ring6 a x y)"
  by (simp add: simpleGraph_def ring6_def vertices_def hasVertex_def)

subsection \<open>Completeness of the search\<close>

lemma embeds_set_cong:
  assumes "embeds q m" "set m' = set m" "distinct (map fst m')" "distinct (map snd m')"
  shows "embeds q m'"
proof (rule embedsI)
  show "distinct (map fst m')" "distinct (map snd m')" by fact+
next
  fix u c assume "(u, c) \<in> set m'"
  then have "(u, c) \<in> set m" using assms(2) by simp
  then show "hasVertex (target q) c \<and> vertexFits q u c" by (rule embeds_vertex [OF assms(1)])
next
  fix u c u' c' assume "(u, c) \<in> set m'" "(u', c') \<in> set m'" "u \<noteq> u'"
  then have "(u, c) \<in> set m" "(u', c') \<in> set m" "u \<noteq> u'" using assms(2) by simp_all
  then show "edgeFits q u u' c c'" by (rule embeds_edge [OF assms(1)])
qed

lemma embeds_reorder:
  assumes e: "embeds q m" and d: "distinct us" and s: "set us = set (map fst m)"
  shows "embeds q (map (\<lambda>u. (u, applyMapping m u)) us)"
proof (rule embeds_set_cong [OF e])
  from e have df: "distinct (map fst m)" and ds: "distinct (map snd m)"
    by (simp_all add: embeds_iff)
  have g: "m = map (\<lambda>u. (u, applyMapping m u)) (map fst m)" by (rule mapping_graph [OF df])
  have "set (map (\<lambda>u. (u, applyMapping m u)) us) = (\<lambda>u. (u, applyMapping m u)) ` set (map fst m)"
    using s by simp
  also have "\<dots> = set (map (\<lambda>u. (u, applyMapping m u)) (map fst m))" by (simp only: set_map)
  also have "\<dots> = set m" using g by simp
  finally show "set (map (\<lambda>u. (u, applyMapping m u)) us) = set m" .
  show "distinct (map fst (map (\<lambda>u. (u, applyMapping m u)) us))"
    using d by (simp add: comp_def)
  have "map snd m = map (applyMapping m) (map fst m)"
    using arg_cong [OF g, of "map snd"] by (simp add: comp_def)
  with ds have "distinct (map (applyMapping m) (map fst m))" by simp
  then have "inj_on (applyMapping m) (set (map fst m))" by (simp only: distinct_map)
  then have "inj_on (applyMapping m) (set us)" using s by simp
  with d have "distinct (map (applyMapping m) us)" by (simp add: distinct_map)
  then show "distinct (map snd (map (\<lambda>u. (u, applyMapping m u)) us))"
    by (simp add: comp_def)
qed

lemma search_complete:
  assumes a: "answers q m" and v: "\<not> invalidQuery q"
  shows "search q (searchOrder (pattern q)) [] \<noteq> None"
proof -
  let ?us = "searchOrder (pattern q)"
  let ?m = "map (\<lambda>u. (u, applyMapping m u)) ?us"
  from v have "distinct (vertices (pattern q))" by (simp add: invalidQuery_def simpleGraph_def)
  then have d: "distinct ?us" by (rule searchOrder_distinct)
  from a have e: "embeds q m" and s: "set ?us = set (map fst m)"
    by (simp_all add: answers_def searchOrder_set)
  have "embeds q ?m" by (rule embeds_reorder [OF e d s])
  moreover have "map fst ?m = ?us" by (simp add: comp_def)
  ultimately have "?m \<in> set (search_all q ?us [])" by (simp add: search_all_full [OF d])
  then have "search_all q ?us [] \<noteq> []" by auto
  then show ?thesis by (cases "search_all q ?us []") (simp_all add: search_first_of first_of_def)
qed

lemma search_sound:
  assumes r: "search q (searchOrder (pattern q)) [] = Some m" and v: "\<not> invalidQuery q"
    and z: "\<not> sizeMismatch q"
  shows "answers q m"
proof -
  let ?us = "searchOrder (pattern q)"
  from v have "distinct (vertices (pattern q))" by (simp add: invalidQuery_def simpleGraph_def)
  then have d: "distinct ?us" by (rule searchOrder_distinct)
  from r have "m \<in> set (search_all q ?us [])"
    by (cases "search_all q ?us []") (simp_all add: search_first_of first_of_def)
  then have "map fst m = ?us" "embeds q m" by (simp_all add: search_all_full [OF d])
  then show ?thesis using z by (simp add: answers_def searchOrder_set)
qed

lemma search_steps_pos: "0 < search_steps q us m"
  by (cases us) simp_all

subsection \<open>Wider label sets\<close>

lemma subgraphQuery_sel:
  "vertexOk (subgraphQuery p t) = matchesLabel" "edgeOk (subgraphQuery p t) = matchesBond"
  "exact (subgraphQuery p t) = False" "pattern (subgraphQuery p t) = p"
  "target (subgraphQuery p t) = t"
  by (simp_all add: subgraphQuery_def)

lemma vertexFits_widen:
  assumes "labelsOf g1 u = Some a" "labelsOf g2 v = Some b" "a \<subseteq> b"
    and "vertexFits (subgraphQuery g1 t) u c"
  shows "vertexFits (subgraphQuery g2 t) v c"
  using assms
  by (auto simp: vertexFits_def subgraphQuery_sel matchesLabel_def split: option.splits)

lemma edgeFits_widen:
  assumes "case edgeBetween g1 u u' of
             None \<Rightarrow> edgeBetween g2 v v' = None
           | Some a \<Rightarrow> (case edgeBetween g2 v v' of None \<Rightarrow> False | Some b \<Rightarrow> a \<subseteq> b)"
    and "edgeFits (subgraphQuery g1 t) u u' c c'"
  shows "edgeFits (subgraphQuery g2 t) v v' c c'"
  using assms
  by (auto simp: edgeFits_def labelFits_def subgraphQuery_sel matchesBond_def
      split: option.splits)

lemma widens_vertex:
  assumes "widens g1 g2 h" "u \<in> set (vertices g1)"
  shows "\<exists>a b. labelsOf g1 u = Some a \<and> labelsOf g2 (h u) = Some b \<and> a \<subseteq> b"
proof -
  from assms(1) have "\<forall>x \<in> set (vertices g1).
      (case labelsOf g1 x of
         None \<Rightarrow> False
       | Some a \<Rightarrow> (case labelsOf g2 (h x) of None \<Rightarrow> False | Some b \<Rightarrow> a \<subseteq> b))"
    by (simp add: widens_def list_all_iff)
  with assms(2) have "case labelsOf g1 u of
         None \<Rightarrow> False
       | Some a \<Rightarrow> (case labelsOf g2 (h u) of None \<Rightarrow> False | Some b \<Rightarrow> a \<subseteq> b)"
    by blast
  then show ?thesis by (cases "labelsOf g1 u"; cases "labelsOf g2 (h u)") simp_all
qed

lemma widens_edge:
  assumes "widens g1 g2 h" "u \<in> set (vertices g1)" "u' \<in> set (vertices g1)" "u \<noteq> u'"
  shows "case edgeBetween g1 u u' of
           None \<Rightarrow> edgeBetween g2 (h u) (h u') = None
         | Some a \<Rightarrow> (case edgeBetween g2 (h u) (h u') of None \<Rightarrow> False | Some b \<Rightarrow> a \<subseteq> b)"
proof -
  from assms(1) have "\<forall>x \<in> set (vertices g1). \<forall>y \<in> set (vertices g1). x = y \<or>
      (case edgeBetween g1 x y of
           None \<Rightarrow> edgeBetween g2 (h x) (h y) = None
         | Some a \<Rightarrow> (case edgeBetween g2 (h x) (h y) of None \<Rightarrow> False | Some b \<Rightarrow> a \<subseteq> b))"
    by (simp add: widens_def list_all_iff)
  with assms(2-4) show ?thesis by blast
qed

lemma embeds_widen:
  assumes w: "widens g1 g2 h"
    and e: "embeds (subgraphQuery g1 t) (map (\<lambda>u. (u, f u)) (vertices g1))"
  shows "embeds (subgraphQuery g2 t) (map (\<lambda>u. (h u, f u)) (vertices g1))"
proof (rule embedsI)
  from w show "distinct (map fst (map (\<lambda>u. (h u, f u)) (vertices g1)))"
    by (simp add: widens_def comp_def)
  from e show "distinct (map snd (map (\<lambda>u. (h u, f u)) (vertices g1)))"
    by (simp add: embeds_iff comp_def)
next
  fix v c assume "(v, c) \<in> set (map (\<lambda>u. (h u, f u)) (vertices g1))"
  then obtain u where u: "u \<in> set (vertices g1)" and v: "v = h u" and c: "c = f u" by auto
  from u have "(u, c) \<in> set (map (\<lambda>u. (u, f u)) (vertices g1))" by (auto simp: c)
  from embeds_vertex [OF e this]
  have t: "hasVertex t c" and f: "vertexFits (subgraphQuery g1 t) u c"
    by (simp_all add: subgraphQuery_sel)
  from widens_vertex [OF w u] obtain a b
    where "labelsOf g1 u = Some a" "labelsOf g2 (h u) = Some b" "a \<subseteq> b" by blast
  then have "vertexFits (subgraphQuery g2 t) (h u) c" using f by (rule vertexFits_widen)
  with t show "hasVertex (target (subgraphQuery g2 t)) c \<and> vertexFits (subgraphQuery g2 t) v c"
    by (simp add: subgraphQuery_sel v)
next
  fix v c v' c'
  assume "(v, c) \<in> set (map (\<lambda>u. (h u, f u)) (vertices g1))"
    and "(v', c') \<in> set (map (\<lambda>u. (h u, f u)) (vertices g1))" and n: "v \<noteq> v'"
  then obtain u u' where u: "u \<in> set (vertices g1)" "v = h u" "c = f u"
    and u': "u' \<in> set (vertices g1)" "v' = h u'" "c' = f u'" by auto
  from n u(2) u'(2) have ne: "u \<noteq> u'" by auto
  from u(1) have 1: "(u, c) \<in> set (map (\<lambda>u. (u, f u)) (vertices g1))" by (auto simp: u(3))
  from u'(1) have 2: "(u', c') \<in> set (map (\<lambda>u. (u, f u)) (vertices g1))"
    by (auto simp: u'(3))
  have "edgeFits (subgraphQuery g1 t) u u' c c'" by (rule embeds_edge [OF e 1 2 ne])
  with widens_edge [OF w u(1) u'(1) ne]
  have "edgeFits (subgraphQuery g2 t) (h u) (h u') c c'" by (rule edgeFits_widen)
  then show "edgeFits (subgraphQuery g2 t) v v' c c'" by (simp add: u(2) u'(2))
qed

section \<open>Claims about the chemical-graph core\<close>

subsection \<open>The automorphisms form a group\<close>

text \<open>
  Claim C3. For every molecule that satisfies the simple-graph invariant, automorphism
  enumeration returns a set of mappings that contains the identity mapping and is closed
  under composition and under inversion; no mapping is returned twice, so the set has at
  least one element, and \<^verbatim>\<open>symmetryNumber\<close> is its size, an integer that is at least 1.
\<close>

theorem automorphism_group:
  assumes "simpleGraph g"
  shows "\<exists>ms. automorphisms g = Inr ms
           \<and> identityMapping (searchOrder g) \<in> set ms
           \<and> (\<forall>a \<in> set ms. \<forall>b \<in> set ms. composeMapping a b \<in> set ms)
           \<and> (\<forall>a \<in> set ms. inverseMapping a \<in> set ms)
           \<and> distinct ms \<and> 1 \<le> length ms
           \<and> symmetryNumber g = Inr (length ms)"
proof -
  let ?ms = "search_all (exactQuery g g) (searchOrder g) []"
  from assms have dv: "distinct (vertices g)" by (simp add: simpleGraph_def)
  then have d: "distinct (searchOrder g)" by (rule searchOrder_distinct)
  have s: "set (searchOrder g) = set (vertices g)" by (rule searchOrder_set)
  have a: "automorphisms g = Inr ?ms" using assms by (simp add: automorphisms_def)
  have i: "identityMapping (searchOrder g) \<in> set ?ms" by (rule identity_mem [OF d s])
  have c: "\<forall>a \<in> set ?ms. \<forall>b \<in> set ?ms. composeMapping a b \<in> set ?ms"
    using compose_mem [OF d s] by blast
  have v: "\<forall>a \<in> set ?ms. inverseMapping a \<in> set ?ms"
    using inverse_mem [OF d s] by blast
  have dm: "distinct ?ms"
    by (rule search_all_distinct) (simp add: exactQuery_sel dv)
  from i have "?ms \<noteq> []" by auto
  then have l: "1 \<le> length ?ms" by (cases ?ms) simp_all
  have n: "symmetryNumber g = Inr (length ?ms)" by (simp add: symmetryNumber_def a)
  from a i c v dm l n show ?thesis by blast
qed

theorem automorphism_group_witness:
  "simpleGraph ethene
   \<and> (\<exists>ms. automorphisms ethene = Inr ms
           \<and> identityMapping (searchOrder ethene) \<in> set ms
           \<and> (\<forall>a \<in> set ms. \<forall>b \<in> set ms. composeMapping a b \<in> set ms)
           \<and> (\<forall>a \<in> set ms. inverseMapping a \<in> set ms)
           \<and> distinct ms \<and> 1 \<le> length ms
           \<and> symmetryNumber ethene = Inr (length ms))"
  using automorphism_group [OF ethene_simple] ethene_simple by blast

subsection \<open>Adding an edge\<close>

text \<open>
  Claim C5. On a graph that satisfies the invariant of the arena, \<^verbatim>\<open>addEdge(v1, v2,
  labels)\<close> fails with \<^verbatim>\<open>DuplicateEdge\<close> when the unordered pair of \<open>v1\<close> and \<open>v2\<close> already
  has an edge (in either orientation), fails with \<^verbatim>\<open>UnknownVertex\<close> when either
  endpoint is not a vertex of the graph, and the two cases exclude each other; in every
  other case it returns an edge identifier that no edge of the graph had, and the graph
  with that one edge more, which joins \<open>v1\<close> and \<open>v2\<close> with the given labels and satisfies
  the invariant again.
\<close>

theorem addEdge_contract:
  assumes "arena_inv g"
  shows "(hasEdge g v1 v2 \<or> hasEdge g v2 v1 \<longrightarrow>
            addEdge g v1 v2 l = Inl DuplicateEdge \<and> hasVertex g v1 \<and> hasVertex g v2)
       \<and> (\<not> hasVertex g v1 \<or> \<not> hasVertex g v2 \<longrightarrow> addEdge g v1 v2 l = Inl UnknownVertex)
       \<and> (\<not> hasEdge g v1 v2 \<and> hasVertex g v1 \<and> hasVertex g v2 \<longrightarrow>
            (\<exists>e g'. addEdge g v1 v2 l = Inr (e, g')
               \<and> e \<notin> set (edges g) \<and> set (edges g') = insert e (set (edges g))
               \<and> vertices g' = vertices g
               \<and> edgeBetween g' v1 v2 = Some l \<and> arena_inv g'))"
proof (intro conjI impI)
  assume "hasEdge g v1 v2 \<or> hasEdge g v2 v1"
  then have h: "hasEdge g v1 v2" using hasEdge_sym [of g v1 v2] by blast
  with addEdge_ok [OF assms, of v1 v2 l] show "addEdge g v1 v2 l = Inl DuplicateEdge"
    by simp
  from hasEdge_hasVertex [OF assms h] show "hasVertex g v1" "hasVertex g v2" by simp_all
next
  assume "\<not> hasVertex g v1 \<or> \<not> hasVertex g v2"
  then show "addEdge g v1 v2 l = Inl UnknownVertex" by (simp add: addEdge_def)
next
  assume a: "\<not> hasEdge g v1 v2 \<and> hasVertex g v1 \<and> hasVertex g v2"
  let ?g' = "g\<lparr>edge_arena := edge_arena g @ [(next_edge g, (v1, v2), l)],
                next_edge := Suc (next_edge g)\<rparr>"
  from a have r: "addEdge g v1 v2 l = Inr (next_edge g, ?g')" by (simp add: addEdge_def)
  from addEdge_fresh [OF assms r]
  have "addEdge g v1 v2 l = Inr (next_edge g, ?g')
      \<and> next_edge g \<notin> set (edges g) \<and> set (edges ?g') = insert (next_edge g) (set (edges g))
      \<and> vertices ?g' = vertices g
      \<and> edgeBetween ?g' v1 v2 = Some l \<and> arena_inv ?g'"
    using r by blast
  then show "\<exists>e g'. addEdge g v1 v2 l = Inr (e, g')
               \<and> e \<notin> set (edges g) \<and> set (edges g') = insert e (set (edges g))
               \<and> vertices g' = vertices g
               \<and> edgeBetween g' v1 v2 = Some l \<and> arena_inv g'"
    by blast
qed

theorem addEdge_contract_witness:
  "arena_inv ethene
   \<and> addEdge ethene 1 0 Single = Inl DuplicateEdge
   \<and> addEdge ethene 0 7 Single = Inl UnknownVertex
   \<and> (\<exists>e g'. addEdge (snd (addVertex ethene carbon)) 1 2 Single = Inr (e, g')
         \<and> e \<notin> set (edges (snd (addVertex ethene carbon)))
         \<and> edgeBetween g' 1 2 = Some Single \<and> arena_inv g')"
proof -
  let ?g = "snd (addVertex ethene carbon)"
  have i: "arena_inv ?g" by (rule arena_inv_addVertex [OF ethene_arena_inv])
  have d: "hasEdge ethene 1 0 \<or> hasEdge ethene 0 1"
    by (simp add: hasEdge_def ethene_def joins_def)
  have u: "\<not> hasVertex ethene 0 \<or> \<not> hasVertex ethene 7"
    by (simp add: hasVertex_def ethene_def vertices_def)
  have f: "\<not> hasEdge ?g 1 2 \<and> hasVertex ?g 1 \<and> hasVertex ?g 2"
    by (simp add: hasEdge_def hasVertex_def addVertex_def ethene_def vertices_def joins_def)
  from addEdge_contract [OF ethene_arena_inv, of 1 0 Single] d
  have "addEdge ethene 1 0 Single = Inl DuplicateEdge" by blast
  moreover from addEdge_contract [OF ethene_arena_inv, of 0 7 Single] u
  have "addEdge ethene 0 7 Single = Inl UnknownVertex" by blast
  moreover from addEdge_contract [OF i, of 1 2 Single] f
  have "\<exists>e g'. addEdge ?g 1 2 Single = Inr (e, g')
         \<and> e \<notin> set (edges ?g) \<and> edgeBetween g' 1 2 = Some Single \<and> arena_inv g'"
    by blast
  ultimately show ?thesis using ethene_arena_inv by blast
qed

subsection \<open>Aborted searches\<close>

text \<open>
  Claim C7. For every bounded match query on two graphs that satisfy the simple-graph
  invariant: when the step budget is smaller than the number of steps the search needs
  to complete, the outcome is \<^verbatim>\<open>SearchAborted\<close>, and so not \<^verbatim>\<open>NoMatch\<close>;
  \<^verbatim>\<open>SearchAborted\<close> is the outcome only in that case; and \<^verbatim>\<open>NoMatch\<close> is the outcome
  only when the search has completed within the budget and no mapping answers the query.
  When the budget suffices, the bounded query gives the outcome of the unbounded one.
\<close>

theorem bounded_outcome:
  assumes "\<not> invalidQuery q"
  shows "(b < matchSteps q \<longrightarrow> boundedMatchQuery q b = Inr SearchAborted)
       \<and> (boundedMatchQuery q b = Inr SearchAborted \<longrightarrow> b < matchSteps q)
       \<and> (boundedMatchQuery q b = Inr NoMatch \<longrightarrow>
            matchSteps q \<le> b \<and> matchQuery q = Inr None \<and> (\<forall>m. \<not> answers q m))
       \<and> (matchSteps q \<le> b \<longrightarrow>
            (\<exists>r. matchQuery q = Inr r \<and> boundedMatchQuery q b = Inr (toOutcome r)))"
proof (cases "sizeMismatch q")
  case True
  then show ?thesis using assms
    by (simp add: matchSteps_def boundedMatchQuery_def matchQuery_def answers_def toOutcome_def)
next
  case False
  let ?us = "searchOrder (pattern q)"
  have ms: "matchSteps q = search_steps q ?us []" using False by (simp add: matchSteps_def)
  have bq: "boundedMatchQuery q b = Inr (fst (bounded_search q ?us [] b))"
    using False assms by (simp add: boundedMatchQuery_def)
  have mq: "matchQuery q = Inr (search q ?us [])"
    using False assms by (simp add: matchQuery_def)
  have none: "\<forall>m. \<not> answers q m" if "search q ?us [] = None"
    using search_complete [OF _ assms] that by blast
  show ?thesis
  proof (cases "search_steps q ?us [] \<le> b")
    case True
    then have o: "boundedMatchQuery q b = Inr (toOutcome (search q ?us []))"
      by (simp add: bq bounded_search_eq)
    show ?thesis using True none
      by (cases "search q ?us []") (simp_all add: o ms mq toOutcome_def)
  next
    case False
    then have "boundedMatchQuery q b = Inr SearchAborted"
      by (simp add: bq bounded_search_eq)
    then show ?thesis using False by (simp add: ms)
  qed
qed

theorem bounded_outcome_witness:
  "\<not> invalidQuery (exactQuery (ring6 carbon Single Aromatic) (ring6 carbon Aromatic Aromatic))
   \<and> 5 < matchSteps (exactQuery (ring6 carbon Single Aromatic) (ring6 carbon Aromatic Aromatic))
   \<and> boundedMatchQuery
        (exactQuery (ring6 carbon Single Aromatic) (ring6 carbon Aromatic Aromatic)) 5
      = Inr SearchAborted
   \<and> boundedMatchQuery
        (exactQuery (ring6 carbon Single Aromatic) (ring6 carbon Aromatic Aromatic)) 7
      = Inr NoMatch
   \<and> matchSteps (exactQuery (ring6 carbon Single Aromatic) (ring6 carbon Aromatic Aromatic))
      \<le> 7
   \<and> matchQuery (exactQuery (ring6 carbon Single Aromatic) (ring6 carbon Aromatic Aromatic))
      = Inr None
   \<and> (\<forall>m. \<not> answers
              (exactQuery (ring6 carbon Single Aromatic) (ring6 carbon Aromatic Aromatic)) m)"
proof -
  let ?q = "exactQuery (ring6 carbon Single Aromatic) (ring6 carbon Aromatic Aromatic)"
  have v: "\<not> invalidQuery ?q" by (simp add: invalidQuery_def exactQuery_sel ring6_simple)
  have s: "5 < matchSteps ?q" by code_simp
  have n: "boundedMatchQuery ?q 7 = Inr NoMatch" by code_simp
  from bounded_outcome [OF v, of 5] s
  have "boundedMatchQuery ?q 5 = Inr SearchAborted" by blast
  moreover from bounded_outcome [OF v, of 7] n
  have "matchSteps ?q \<le> 7 \<and> matchQuery ?q = Inr None \<and> (\<forall>m. \<not> answers ?q m)" by blast
  ultimately show ?thesis using v s n by blast
qed

subsection \<open>Wildcard widening\<close>

text \<open>
  Claim C6. Let \<open>g1\<close> and \<open>g2\<close> be Groups related by a correspondence \<open>h\<close> of their
  vertices and edges (\<open>h\<close> pairs the vertices of \<open>g1\<close> one-to-one with those of \<open>g2\<close>, and
  two vertices of \<open>g1\<close> are joined exactly when their partners in \<open>g2\<close> are), under which
  every label set of \<open>g2\<close>, of a vertex or of an edge, is a superset of the corresponding
  one of \<open>g1\<close>; let \<open>g2\<close> satisfy the simple-graph invariant. Then for every Molecule \<open>t\<close>:
  if the subgraph-isomorphism query finds an embedding of \<open>g1\<close> in \<open>t\<close>, it also finds
  one of \<open>g2\<close> in \<open>t\<close>, and the mapping it returns answers that query.
\<close>

theorem widening_monotone:
  assumes w: "widens g1 g2 h" and s2: "simpleGraph g2"
    and m: "findSubgraphIsomorphism g1 t = Inr (Some m1)"
  shows "\<exists>m2. findSubgraphIsomorphism g2 t = Inr (Some m2) \<and> answers (subgraphQuery g2 t) m2"
proof -
  let ?q1 = "subgraphQuery g1 t" and ?q2 = "subgraphQuery g2 t"
  from m have v1: "\<not> invalidQuery ?q1"
    by (auto simp: findSubgraphIsomorphism_def matchQuery_def split: if_splits)
  have z1: "\<not> sizeMismatch ?q1" and z2: "\<not> sizeMismatch ?q2"
    by (simp_all add: sizeMismatch_def subgraphQuery_sel)
  from m v1 z1 have r: "search ?q1 (searchOrder (pattern ?q1)) [] = Some m1"
    by (simp add: findSubgraphIsomorphism_def matchQuery_def)
  have a1: "answers ?q1 m1" by (rule search_sound [OF r v1 z1])
  from v1 have s1: "simpleGraph g1" and st: "simpleGraph t"
    by (simp_all add: invalidQuery_def subgraphQuery_sel)
  then have d1: "distinct (vertices g1)" by (simp add: simpleGraph_def)
  from a1 have e1: "embeds ?q1 m1" and f1: "set (vertices g1) = set (map fst m1)"
    by (simp_all add: answers_def subgraphQuery_sel)
  let ?m = "map (\<lambda>u. (h u, applyMapping m1 u)) (vertices g1)"
  have "embeds ?q1 (map (\<lambda>u. (u, applyMapping m1 u)) (vertices g1))"
    by (rule embeds_reorder [OF e1 d1 f1])
  with w have e2: "embeds ?q2 ?m" by (rule embeds_widen)
  have "set (map fst ?m) = set (map h (vertices g1))" by (simp add: comp_def)
  also from w have "\<dots> = set (vertices g2)" by (simp only: widens_def)
  finally have a2: "answers ?q2 ?m" using e2 z2 by (simp add: answers_def subgraphQuery_sel)
  from s2 st have v2: "\<not> invalidQuery ?q2" by (simp add: invalidQuery_def subgraphQuery_sel)
  from search_complete [OF a2 v2] obtain m2
    where r2: "search ?q2 (searchOrder (pattern ?q2)) [] = Some m2" by blast
  have "answers ?q2 m2" by (rule search_sound [OF r2 v2 z2])
  moreover from r2 v2 z2 have "findSubgraphIsomorphism g2 t = Inr (Some m2)"
    by (simp add: findSubgraphIsomorphism_def matchQuery_def)
  ultimately show ?thesis by blast
qed

theorem widening_monotone_witness:
  "widens carbonyl double_bonded (\<lambda>v. v + 5) \<and> simpleGraph double_bonded
   \<and> findSubgraphIsomorphism carbonyl methanal = Inr (Some [(0, 1), (1, 0)])
   \<and> (\<exists>m2. findSubgraphIsomorphism double_bonded methanal = Inr (Some m2)
         \<and> answers (subgraphQuery double_bonded methanal) m2)"
proof -
  have w: "widens carbonyl double_bonded (\<lambda>v. v + 5)" by code_simp
  have s: "simpleGraph double_bonded" by code_simp
  have m: "findSubgraphIsomorphism carbonyl methanal = Inr (Some [(0, 1), (1, 0)])"
    by code_simp
  from widening_monotone [OF w s m] w s m show ?thesis by blast
qed

end
